theory Spec2Isabelle
  imports
    Complex_Main
    "HOL-Library.Char_ord"
    "HOL-Library.List_Lexorder"
    "HOL-Library.Product_Lexorder"
    "HOL-Library.AList"
    "HOL-Library.Multiset"
begin

section \<open>Python values and exceptions\<close>

text \<open>
  The planning package is Python. Exceptions are values of \<open>error\<close>; a function that can
  raise returns \<open>error + 'a\<close>. Python ints are unbounded: \<open>int\<close>.
\<close>

datatype error = TypeError | KeyError | AttributeError | ValueError | OverflowError

section \<open>Python floats\<close>

text \<open>
  A Python float is an IEEE 754 binary64 number: a finite value, an infinity or NaN.
  The finite values are carried as the rationals they denote; the two zeros are one
  value (no operation below tells them apart).
\<close>

datatype double = Fin rat | PInf | NInf | NaN

text \<open>Rounding a rational to an integer, ties to the even neighbour.\<close>

definition round_even :: "rat \<Rightarrow> int" where
  "round_even q =
     (let f = \<lfloor>q\<rfloor>; r = q - of_int f in
      if r < 1 / 2 then f
      else if 1 / 2 < r then f + 1
      else if even f then f else f + 1)"

text \<open>
  The binade of a magnitude: the exponent \<open>e\<close> with \<open>2^e \<le> |x| < 2^(e+1)\<close>, kept within
  the exponent range of binary64, from \<open>-1022\<close> (below it the numbers are subnormal and
  share the spacing of that binade) to \<open>1023\<close>.
\<close>

fun binade_scan :: "nat \<Rightarrow> int \<Rightarrow> rat \<Rightarrow> int" where
  "binade_scan 0 e x = e"
| "binade_scan (Suc n) e x = (if 2 powi (e + 1) \<le> x then binade_scan n (e + 1) x else e)"

definition binade :: "rat \<Rightarrow> int" where
  "binade x = binade_scan 2045 (- 1022) \<bar>x\<bar>"

text \<open>
  The nearest multiple of the spacing \<open>2^(e-52)\<close> of the binade of \<open>x\<close>, ties to even:
  53 significant bits.
\<close>

definition nearest :: "rat \<Rightarrow> rat" where
  "nearest x = of_int (round_even (x / 2 powi (binade x - 52))) * 2 powi (binade x - 52)"

text \<open>
  The float that an exact result rounds to: a result that rounds to \<open>2^1024\<close> or beyond
  is an infinity. A decimal literal of the source, such as \<open>0.3\<close>, denotes
  \<open>round_double (3 / 10)\<close>.
\<close>

definition round_double :: "rat \<Rightarrow> double" where
  "round_double x =
     (if 2 powi 1024 \<le> nearest x then PInf
      else if nearest x \<le> - (2 powi 1024) then NInf
      else Fin (nearest x))"

text \<open>\<open>a + b\<close>, \<open>- a\<close>, \<open>a - b\<close> and \<open>a * b\<close> on floats.\<close>

definition dadd :: "double \<Rightarrow> double \<Rightarrow> double" where
  "dadd a b =
     (case a of
        Fin x \<Rightarrow> (case b of Fin y \<Rightarrow> round_double (x + y) | PInf \<Rightarrow> PInf | NInf \<Rightarrow> NInf
                    | NaN \<Rightarrow> NaN)
      | PInf \<Rightarrow> (case b of Fin y \<Rightarrow> PInf | PInf \<Rightarrow> PInf | NInf \<Rightarrow> NaN | NaN \<Rightarrow> NaN)
      | NInf \<Rightarrow> (case b of Fin y \<Rightarrow> NInf | PInf \<Rightarrow> NaN | NInf \<Rightarrow> NInf | NaN \<Rightarrow> NaN)
      | NaN \<Rightarrow> NaN)"

definition dneg :: "double \<Rightarrow> double" where
  "dneg a = (case a of Fin x \<Rightarrow> Fin (- x) | PInf \<Rightarrow> NInf | NInf \<Rightarrow> PInf | NaN \<Rightarrow> NaN)"

definition dsub :: "double \<Rightarrow> double \<Rightarrow> double" where
  "dsub a b = dadd a (dneg b)"

definition dmul :: "double \<Rightarrow> double \<Rightarrow> double" where
  "dmul a b =
     (case a of
        Fin x \<Rightarrow>
          (case b of
             Fin y \<Rightarrow> round_double (x * y)
           | PInf \<Rightarrow> (if 0 < x then PInf else if x < 0 then NInf else NaN)
           | NInf \<Rightarrow> (if 0 < x then NInf else if x < 0 then PInf else NaN)
           | NaN \<Rightarrow> NaN)
      | PInf \<Rightarrow>
          (case b of
             Fin y \<Rightarrow> (if 0 < y then PInf else if y < 0 then NInf else NaN)
           | PInf \<Rightarrow> PInf | NInf \<Rightarrow> NInf | NaN \<Rightarrow> NaN)
      | NInf \<Rightarrow>
          (case b of
             Fin y \<Rightarrow> (if 0 < y then NInf else if y < 0 then PInf else NaN)
           | PInf \<Rightarrow> NInf | NInf \<Rightarrow> PInf | NaN \<Rightarrow> NaN)
      | NaN \<Rightarrow> NaN)"

text \<open>
  \<open>a <= b\<close> and \<open>a < b\<close>: false whenever an operand is NaN. \<open>a >= b\<close> is \<open>dle b a\<close>
  and \<open>a > b\<close> is \<open>dlt b a\<close>.
\<close>

definition dle :: "double \<Rightarrow> double \<Rightarrow> bool" where
  "dle a b =
     (case a of
        Fin x \<Rightarrow> (case b of Fin y \<Rightarrow> x \<le> y | PInf \<Rightarrow> True | NInf \<Rightarrow> False | NaN \<Rightarrow> False)
      | PInf \<Rightarrow> (case b of Fin y \<Rightarrow> False | PInf \<Rightarrow> True | NInf \<Rightarrow> False | NaN \<Rightarrow> False)
      | NInf \<Rightarrow> (case b of Fin y \<Rightarrow> True | PInf \<Rightarrow> True | NInf \<Rightarrow> True | NaN \<Rightarrow> False)
      | NaN \<Rightarrow> False)"

definition dlt :: "double \<Rightarrow> double \<Rightarrow> bool" where
  "dlt a b =
     (case a of
        Fin x \<Rightarrow> (case b of Fin y \<Rightarrow> x < y | PInf \<Rightarrow> True | NInf \<Rightarrow> False | NaN \<Rightarrow> False)
      | PInf \<Rightarrow> False
      | NInf \<Rightarrow> (case b of Fin y \<Rightarrow> True | PInf \<Rightarrow> True | NInf \<Rightarrow> False | NaN \<Rightarrow> False)
      | NaN \<Rightarrow> False)"

text \<open>\<open>max(0, a)\<close>: Python's \<open>max\<close> keeps its first argument unless a later one is greater.\<close>

definition dmax0 :: "double \<Rightarrow> double" where
  "dmax0 a = (if dlt (Fin 0) a then a else Fin 0)"

text \<open>
  A float that is not negative and not NaN: a value of the rounding, or positive
  infinity.
\<close>

definition nonneg_float :: "double \<Rightarrow> bool" where
  "nonneg_float a =
     (case a of Fin x \<Rightarrow> 0 \<le> x \<and> nearest x = x | PInf \<Rightarrow> True | NInf \<Rightarrow> False
      | NaN \<Rightarrow> False)"

text \<open>Two such floats in ascending order.\<close>

definition float_ordered :: "double \<Rightarrow> double \<Rightarrow> bool" where
  "float_ordered a b = (nonneg_float a \<and> nonneg_float b \<and> dle a b)"

text \<open>
  The conversion of an int to a float, as an arithmetic operator applies it to an int
  operand that meets a float: correctly rounded, and OverflowError (\<open>int too large to
  convert to float\<close>) where the result would not be finite.
\<close>

definition float_of_int :: "int \<Rightarrow> error + double" where
  "float_of_int i =
     (case round_double (of_int i) of
        Fin x \<Rightarrow> Inr (Fin x)
      | PInf \<Rightarrow> Inl OverflowError
      | NInf \<Rightarrow> Inl OverflowError
      | NaN \<Rightarrow> Inl OverflowError)"

text \<open>
  The values a task dictionary of \<open>priority_manager.py\<close> holds: an int (a bool is the
  int 0 or 1), a float, a string, or \<open>None\<close>.
\<close>

datatype pyval = PyInt int | PyFloat double | Str string | NoneVal

type_synonym task = "string \<rightharpoonup> pyval"

text \<open>\<open>d.get(key, default)\<close>\<close>

definition dict_get :: "task \<Rightarrow> string \<Rightarrow> pyval \<Rightarrow> pyval" where
  "dict_get d k dflt = (case d k of None \<Rightarrow> dflt | Some v \<Rightarrow> v)"

text \<open>
  \<open>v * w\<close> and \<open>w * v\<close> for a float \<open>w\<close>: an int is converted first, a string or \<open>None\<close>
  times a float raises TypeError.
\<close>

fun py_mul :: "pyval \<Rightarrow> double \<Rightarrow> error + double" where
  "py_mul (PyInt i) w = (case float_of_int i of Inl e \<Rightarrow> Inl e | Inr x \<Rightarrow> Inr (dmul x w))"
| "py_mul (PyFloat x) w = Inr (dmul x w)"
| "py_mul (Str s) w = Inl TypeError"
| "py_mul NoneVal w = Inl TypeError"

text \<open>
  \<open>v >= c\<close> and \<open>v > c\<close> for a number \<open>c\<close>: Python compares an int with a float by
  their exact values; a string or \<open>None\<close> raises TypeError.
\<close>

fun py_ge :: "pyval \<Rightarrow> double \<Rightarrow> error + bool" where
  "py_ge (PyInt i) c = Inr (dle c (Fin (of_int i)))"
| "py_ge (PyFloat x) c = Inr (dle c x)"
| "py_ge (Str s) c = Inl TypeError"
| "py_ge NoneVal c = Inl TypeError"

fun py_gt :: "pyval \<Rightarrow> double \<Rightarrow> error + bool" where
  "py_gt (PyInt i) c = Inr (dlt c (Fin (of_int i)))"
| "py_gt (PyFloat x) c = Inr (dlt c x)"
| "py_gt (Str s) c = Inl TypeError"
| "py_gt NoneVal c = Inl TypeError"

text \<open>
  \<open>min(v, 5)\<close>: Python's \<open>min\<close> keeps its first argument unless a later one is smaller.
\<close>

fun py_min5 :: "pyval \<Rightarrow> error + pyval" where
  "py_min5 (PyInt i) = Inr (if 5 < i then PyInt 5 else PyInt i)"
| "py_min5 (PyFloat x) = Inr (if dlt (Fin 5) x then PyInt 5 else PyFloat x)"
| "py_min5 (Str s) = Inl TypeError"
| "py_min5 NoneVal = Inl TypeError"

section \<open>PriorityManager (priority\_manager.py)\<close>

datatype PriorityLevel = NONE | LOW | MEDIUM | HIGH | CRITICAL

text \<open>\<open>level.value\<close>\<close>

fun level_value :: "PriorityLevel \<Rightarrow> int" where
  "level_value CRITICAL = 4"
| "level_value HIGH = 3"
| "level_value MEDIUM = 2"
| "level_value LOW = 1"
| "level_value NONE = 0"

text \<open>\<open>PriorityLevel(v)\<close>: the enum member with that value, ValueError if there is none.\<close>

definition level_of_value :: "int \<Rightarrow> error + PriorityLevel" where
  "level_of_value v =
     (if v = 4 then Inr CRITICAL
      else if v = 3 then Inr HIGH
      else if v = 2 then Inr MEDIUM
      else if v = 1 then Inr LOW
      else if v = 0 then Inr NONE
      else Inl ValueError)"

text \<open>\<open>self.factor_weights\<close>, in the dictionary's insertion order.\<close>

definition factor_weights :: "(string \<times> double) list" where
  "factor_weights =
     [(''deadline'', round_double (3 / 10)),
      (''importance'', round_double (25 / 100)),
      (''effort'', round_double (2 / 10)),
      (''dependencies'', round_double (15 / 100)),
      (''user_preference'', round_double (1 / 10))]"

text \<open>
  The first loop of \<open>calculate_priority\<close>:
  \<open>priority_score += task.get(factor, 0) * weight\<close> for every factor. The accumulator
  starts as the int 0, which the first addition converts to the float 0.0.
\<close>

fun weigh_factors :: "task \<Rightarrow> (string \<times> double) list \<Rightarrow> double \<Rightarrow> error + double" where
  "weigh_factors t [] acc = Inr acc"
| "weigh_factors t ((factor, weight) # rest) acc =
     (case py_mul (dict_get t factor (PyInt 0)) weight of
        Inl e \<Rightarrow> Inl e
      | Inr v \<Rightarrow> weigh_factors t rest (dadd acc v))"

definition score_to_level :: "double \<Rightarrow> PriorityLevel" where
  "score_to_level score =
     (if dle (round_double (8 / 10)) score then CRITICAL
      else if dle (round_double (6 / 10)) score then HIGH
      else if dle (round_double (4 / 10)) score then MEDIUM
      else if dle (round_double (2 / 10)) score then LOW
      else NONE)"

text \<open>
  \<open>_rule_urgent_deadline\<close>. The parameter \<open>days_until\<close> stands for
  \<open>(datetime.fromisoformat(deadline) - datetime.now()).days\<close>: it reads the clock, and
  is \<open>None\<close> where \<open>fromisoformat\<close> raises ValueError.
\<close>

definition rule_urgent_deadline :: "(string \<Rightarrow> int option) \<Rightarrow> task \<Rightarrow> error + double" where
  "rule_urgent_deadline days_until t =
     (case dict_get t ''deadline'' NoneVal of
        Str s \<Rightarrow>
          (if s \<noteq> [] then
             (case days_until s of
                None \<Rightarrow> Inl ValueError
              | Some days_until_deadline \<Rightarrow>
                  (if days_until_deadline \<le> 1 then Inr (round_double (3 / 10))
                   else if days_until_deadline \<le> 3 then Inr (round_double (15 / 100))
                   else Inr (Fin 0)))
           else Inr (Fin 0))
      | PyInt i \<Rightarrow> Inr (Fin 0)
      | PyFloat x \<Rightarrow> Inr (Fin 0)
      | NoneVal \<Rightarrow> Inr (Fin 0))"

definition rule_high_importance :: "task \<Rightarrow> error + double" where
  "rule_high_importance t =
     (case py_ge (dict_get t ''importance'' (PyInt 0)) (round_double (8 / 10)) of
        Inl e \<Rightarrow> Inl e
      | Inr b \<Rightarrow> if b then Inr (round_double (25 / 100)) else Inr (Fin 0))"

definition rule_blocked_tasks :: "task \<Rightarrow> error + double" where
  "rule_blocked_tasks t =
     (let blocking_count = dict_get t ''blocking_count'' (PyInt 0) in
      case py_gt blocking_count (Fin 0) of
        Inl e \<Rightarrow> Inl e
      | Inr b \<Rightarrow>
          (if b then
             (case py_min5 blocking_count of
                Inl e \<Rightarrow> Inl e
              | Inr m \<Rightarrow> py_mul m (round_double (2 / 10)))
           else Inr (Fin 0)))"

definition rule_user_preference :: "task \<Rightarrow> error + double" where
  "rule_user_preference t =
     py_mul (dict_get t ''user_preference'' (PyInt 0)) (round_double (15 / 100))"

text \<open>\<open>self.priority_rules\<close>\<close>

definition priority_rules :: "(string \<Rightarrow> int option) \<Rightarrow> (task \<Rightarrow> error + double) list" where
  "priority_rules days_until =
     [rule_urgent_deadline days_until,
      rule_high_importance,
      rule_blocked_tasks,
      rule_user_preference]"

text \<open>
  The second loop of \<open>calculate_priority\<close>: a rule's result is added when it is truthy.
  A rule returns the int 0 or a float; both zeros are falsy and are the value \<open>Fin 0\<close>
  here, every other float (NaN too) is truthy.
\<close>

fun apply_rules :: "(task \<Rightarrow> error + double) list \<Rightarrow> task \<Rightarrow> double \<Rightarrow> error + double" where
  "apply_rules [] t acc = Inr acc"
| "apply_rules (rule # rest) t acc =
     (case rule t of
        Inl e \<Rightarrow> Inl e
      | Inr rule_result \<Rightarrow>
          apply_rules rest t (if rule_result \<noteq> Fin 0 then dadd acc rule_result else acc))"

text \<open>The body of the \<open>try\<close> block, up to the value of \<open>priority_score\<close>.\<close>

definition priority_score :: "(string \<Rightarrow> int option) \<Rightarrow> task \<Rightarrow> error + double" where
  "priority_score days_until t =
     (case weigh_factors t factor_weights (Fin 0) of
        Inl e \<Rightarrow> Inl e
      | Inr s \<Rightarrow> apply_rules (priority_rules days_until) t s)"

text \<open>\<open>calculate_priority\<close>: any exception in the body is caught and gives MEDIUM.\<close>

definition calculate_priority :: "(string \<Rightarrow> int option) \<Rightarrow> task \<Rightarrow> PriorityLevel" where
  "calculate_priority days_until t =
     (case priority_score days_until t of
        Inl e \<Rightarrow> MEDIUM
      | Inr s \<Rightarrow> score_to_level s)"

text \<open>
  The context dictionary of \<open>adjust_priority_based_on_context\<close>: \<open>current_time\<close> is a
  datetime of which only \<open>.hour\<close> is read, so the field holds the hour; the two
  availabilities are floats; an absent key is \<open>None\<close>. The fields are the keys,
  prefixed \<open>ctx_\<close>.
\<close>

record exec_context =
  ctx_current_time :: "int option"
  ctx_resource_availability :: "double option"
  ctx_user_availability :: "double option"

text \<open>
  The condition \<open>current_time and current_time.hour >= 22 or current_time.hour <= 6\<close>,
  which Python reads as \<open>(current_time and current_time.hour >= 22) or (current_time.hour <= 6)\<close>:
  when \<open>current_time\<close> is \<open>None\<close> the left disjunct is falsy and the right one reads
  \<open>None.hour\<close>.
\<close>

definition night_condition :: "int option \<Rightarrow> error + bool" where
  "night_condition ct =
     (if (case ct of None \<Rightarrow> False | Some hour \<Rightarrow> hour \<ge> 22) then Inr True
      else (case ct of None \<Rightarrow> Inl AttributeError | Some hour \<Rightarrow> Inr (hour \<le> 6)))"

definition adjust_priority_based_on_context ::
  "(string \<Rightarrow> int option) \<Rightarrow> task \<Rightarrow> exec_context \<Rightarrow> error + PriorityLevel" where
  "adjust_priority_based_on_context days_until t ctx =
     (let base_priority = calculate_priority days_until t;
          availability = (case ctx_resource_availability ctx of None \<Rightarrow> Fin 1 | Some a \<Rightarrow> a)
      in case night_condition (ctx_current_time ctx) of
           Inl e \<Rightarrow> Inl e
         | Inr night \<Rightarrow>
             (if night \<and> level_value base_priority < level_value CRITICAL
              then level_of_value (max (level_value base_priority - 1) 0)
              else if dlt availability (round_double (3 / 10))
              then level_of_value (max (level_value base_priority - 1) 0)
              else Inr base_priority))"


section \<open>ResourceAllocator (resource\_allocator.py)\<close>

text \<open>
  A Python dictionary is an association list in insertion order with one entry per key:
  \<open>d[k] = v\<close> is \<open>AList.update\<close> (replace in place, or append), \<open>del d[k]\<close> is
  \<open>AList.delete\<close>, \<open>d[k]\<close> and \<open>k in d\<close> read \<open>map_of\<close>. The lock is not modelled:
  every operation below runs to its end inside \<open>with self.lock\<close>. \<open>time.time()\<close> is the
  argument \<open>now\<close>.
\<close>

record Resource =
  res_name :: string
  res_total :: rat
  res_allocated :: rat
  res_unit :: string

definition available :: "Resource \<Rightarrow> rat" where
  "available r = max 0 (res_total r - res_allocated r)"

definition utilization :: "Resource \<Rightarrow> rat" where
  "utilization r = (if res_total r > 0 then (res_allocated r / res_total r) * 100 else 0)"

definition can_allocate :: "Resource \<Rightarrow> rat \<Rightarrow> bool" where
  "can_allocate r amount = (0 \<le> amount \<and> amount \<le> available r)"

definition allocate :: "Resource \<Rightarrow> rat \<Rightarrow> bool \<times> Resource" where
  "allocate r amount =
     (if \<not> can_allocate r amount then (False, r)
      else (True, r\<lparr>res_allocated := res_allocated r + amount\<rparr>))"

definition release :: "Resource \<Rightarrow> rat \<Rightarrow> bool \<times> Resource" where
  "release r amount =
     (if amount < 0 \<or> amount > res_allocated r then (False, r)
      else (True, r\<lparr>res_allocated := res_allocated r - amount\<rparr>))"

type_synonym requirements = "(string \<times> rat) list"

type_synonym registry = "(string \<times> Resource) list"

record ResourceRequest =
  req_id :: string
  req_requirements :: requirements
  req_priority :: int
  req_timeout :: "rat option"
  req_timestamp :: rat
  req_allocated :: bool

record allocator =
  resources :: registry
  pending_requests :: "ResourceRequest list"
  allocated_resources :: "(string \<times> requirements) list"

text \<open>\<open>ResourceAllocator.__init__\<close>\<close>

definition init_allocator :: allocator where
  "init_allocator = \<lparr>resources = [], pending_requests = [], allocated_resources = []\<rparr>"

definition register_resource :: "allocator \<Rightarrow> string \<Rightarrow> rat \<Rightarrow> string \<Rightarrow> bool \<times> allocator" where
  "register_resource s name total' unit =
     (if map_of (resources s) name \<noteq> None then (False, s)
      else if total' \<le> 0 then (False, s)
      else (True, s\<lparr>resources :=
              AList.update name
                \<lparr>res_name = name, res_total = total', res_allocated = 0, res_unit = unit\<rparr>
                (resources s)\<rparr>))"

fun validate_request :: "registry \<Rightarrow> requirements \<Rightarrow> bool" where
  "validate_request res [] = True"
| "validate_request res ((name, amount) # rest) =
     (if map_of res name = None then False
      else if amount \<le> 0 then False
      else validate_request res rest)"

text \<open>\<open>_check_availability\<close>: \<open>self.resources[name]\<close> raises KeyError on an unknown name.\<close>

fun check_availability :: "registry \<Rightarrow> requirements \<Rightarrow> error + bool" where
  "check_availability res [] = Inr True"
| "check_availability res ((name, amount) # rest) =
     (case map_of res name of
        None \<Rightarrow> Inl KeyError
      | Some r \<Rightarrow>
          (if \<not> can_allocate r amount then Inr False
           else check_availability res rest))"

text \<open>
  The loop of \<open>_allocate_resources\<close>. The result of \<open>Resource.allocate\<close> is not read; a
  KeyError leaves the amounts allocated so far.
\<close>

fun allocate_loop :: "requirements \<Rightarrow> registry \<Rightarrow> error option \<times> registry" where
  "allocate_loop [] res = (None, res)"
| "allocate_loop ((name, amount) # rest) res =
     (case map_of res name of
        None \<Rightarrow> (Some KeyError, res)
      | Some r \<Rightarrow> allocate_loop rest (AList.update name (snd (allocate r amount)) res))"

definition allocate_resources ::
  "string \<Rightarrow> requirements \<Rightarrow> allocator \<Rightarrow> error option \<times> allocator" where
  "allocate_resources request_id reqs s =
     (let s1 = s\<lparr>allocated_resources := AList.update request_id reqs (allocated_resources s)\<rparr>;
          (e, res) = allocate_loop reqs (resources s1)
      in (e, s1\<lparr>resources := res\<rparr>))"

definition request_resources ::
  "allocator \<Rightarrow> string \<Rightarrow> requirements \<Rightarrow> int \<Rightarrow> rat option \<Rightarrow> rat
     \<Rightarrow> (error + bool) \<times> allocator" where
  "request_resources s request_id reqs priority timeout now =
     (if \<not> validate_request (resources s) reqs then (Inr False, s)
      else
        (case check_availability (resources s) reqs of
           Inl e \<Rightarrow> (Inl e, s)
         | Inr avail \<Rightarrow>
             (if avail then
                (case allocate_resources request_id reqs s of
                   (Some e, s') \<Rightarrow> (Inl e, s')
                 | (None, s') \<Rightarrow> (Inr True, s'))
              else
                (Inr False,
                 s\<lparr>pending_requests := pending_requests s @
                     [\<lparr>req_id = request_id, req_requirements = reqs, req_priority = priority,
                       req_timeout = timeout, req_timestamp = now, req_allocated = False\<rparr>]\<rparr>))))"

text \<open>
  The loop of \<open>release_resources\<close>: a name that is no longer registered is skipped, a
  failed \<open>Resource.release\<close> is only logged.
\<close>

fun release_loop :: "requirements \<Rightarrow> registry \<Rightarrow> registry" where
  "release_loop [] res = res"
| "release_loop ((name, amount) # rest) res =
     (case map_of res name of
        None \<Rightarrow> release_loop rest res
      | Some r \<Rightarrow> release_loop rest (AList.update name (snd (release r amount)) res))"

definition not_expired :: "rat \<Rightarrow> ResourceRequest \<Rightarrow> bool" where
  "not_expired current_time req =
     (case req_timeout req of
        None \<Rightarrow> True
      | Some t \<Rightarrow> current_time - req_timestamp req < t)"

text \<open>The sort key \<open>(-x.priority, x.timestamp)\<close>; Python's sort is stable, as \<open>sort_key\<close> is.\<close>

definition pending_key :: "ResourceRequest \<Rightarrow> int \<times> rat" where
  "pending_key x = (- req_priority x, req_timestamp x)"

text \<open>
  The \<open>for request in self.pending_requests\<close> loop of \<open>_process_pending_requests\<close>. It
  returns the exception if one was raised, the list with the \<open>allocated\<close> flags it set,
  and the registry and allocation records as they are when it stops.
\<close>

fun process_loop ::
  "ResourceRequest list \<Rightarrow> allocator \<Rightarrow> error option \<times> ResourceRequest list \<times> allocator" where
  "process_loop [] s = (None, [], s)"
| "process_loop (request # rest) s =
     (case check_availability (resources s) (req_requirements request) of
        Inl e \<Rightarrow> (Some e, request # rest, s)
      | Inr avail \<Rightarrow>
          (if avail then
             (case allocate_resources (req_id request) (req_requirements request) s of
                (Some e, s') \<Rightarrow> (Some e, request # rest, s')
              | (None, s') \<Rightarrow>
                  (case process_loop rest s' of
                     (e, rest', s'') \<Rightarrow> (e, request\<lparr>req_allocated := True\<rparr> # rest', s'')))
           else
             (case process_loop rest s of
                (e, rest', s'') \<Rightarrow> (e, request # rest', s''))))"

definition process_pending_requests :: "rat \<Rightarrow> allocator \<Rightarrow> error option \<times> allocator" where
  "process_pending_requests current_time s =
     (let live = filter (not_expired current_time) (pending_requests s);
          ordered = sort_key pending_key live
      in case process_loop ordered s of
           (Some e, marked, s') \<Rightarrow> (Some e, s'\<lparr>pending_requests := marked\<rparr>)
         | (None, marked, s') \<Rightarrow>
             (None, s'\<lparr>pending_requests := filter (\<lambda>req. \<not> req_allocated req) marked\<rparr>))"

text \<open>
  \<open>release_resources\<close>: an exception of the reprocessing is caught, and the call then
  returns False with the amounts already released.
\<close>

definition release_resources :: "allocator \<Rightarrow> string \<Rightarrow> rat \<Rightarrow> bool \<times> allocator" where
  "release_resources s request_id now =
     (case map_of (allocated_resources s) request_id of
        None \<Rightarrow> (False, s)
      | Some recorded \<Rightarrow>
          (let s1 = s\<lparr>resources := release_loop recorded (resources s)\<rparr>;
               s2 = s1\<lparr>allocated_resources := AList.delete request_id (allocated_resources s1)\<rparr>
           in case process_pending_requests now s2 of
                (None, s3) \<Rightarrow> (True, s3)
              | (Some e, s3) \<Rightarrow> (False, s3)))"

text \<open>A call of the public interface, with the clock reading at the call.\<close>

datatype allocator_call =
    Register string rat string
  | Request string requirements int "rat option"
  | Release string

fun exec_call :: "allocator \<Rightarrow> allocator_call \<times> rat \<Rightarrow> allocator" where
  "exec_call s (Register name total' unit, now) = snd (register_resource s name total' unit)"
| "exec_call s (Request request_id reqs priority timeout, now) =
     snd (request_resources s request_id reqs priority timeout now)"
| "exec_call s (Release request_id, now) = snd (release_resources s request_id now)"

definition run_calls :: "allocator \<Rightarrow> (allocator_call \<times> rat) list \<Rightarrow> allocator" where
  "run_calls s calls = foldl exec_call s calls"

section \<open>ResourceAllocator on floats\<close>

text \<open>
  The amounts of \<open>resource_allocator.py\<close> are Python floats. The section above carries
  them as exact rationals, the arithmetic in which the accounting of grants and
  releases is stated. This section is the same code with every amount a float and
  every addition, subtraction and comparison as Python performs it; the names are those
  of the source with the suffix \<open>_f\<close>. Readings of \<open>time.time()\<close> are finite floats and
  are carried as the rationals they denote; a timeout is a float.
\<close>

record Resource_f =
  name_f :: string
  total_f :: double
  allocated_f :: double
  unit_f :: string

text \<open>\<open>max(0, self.total - self.allocated)\<close>\<close>

definition available_f :: "Resource_f \<Rightarrow> double" where
  "available_f r = dmax0 (dsub (total_f r) (allocated_f r))"

text \<open>\<open>0 <= amount <= self.available\<close>\<close>

definition can_allocate_f :: "Resource_f \<Rightarrow> double \<Rightarrow> bool" where
  "can_allocate_f r amount = (dle (Fin 0) amount \<and> dle amount (available_f r))"

definition allocate_f :: "Resource_f \<Rightarrow> double \<Rightarrow> bool \<times> Resource_f" where
  "allocate_f r amount =
     (if \<not> can_allocate_f r amount then (False, r)
      else (True, r\<lparr>allocated_f := dadd (allocated_f r) amount\<rparr>))"

text \<open>\<open>if amount < 0 or amount > self.allocated: return False\<close>\<close>

definition release_f :: "Resource_f \<Rightarrow> double \<Rightarrow> bool \<times> Resource_f" where
  "release_f r amount =
     (if dlt amount (Fin 0) \<or> dlt (allocated_f r) amount then (False, r)
      else (True, r\<lparr>allocated_f := dsub (allocated_f r) amount\<rparr>))"

type_synonym requirements_f = "(string \<times> double) list"

type_synonym registry_f = "(string \<times> Resource_f) list"

record ResourceRequest_f =
  id_f :: string
  requirements_of :: requirements_f
  priority_f :: int
  timeout_f :: "double option"
  timestamp_f :: rat
  granted_f :: bool

record allocator_f =
  resources_f :: registry_f
  pending_requests_f :: "ResourceRequest_f list"
  allocated_resources_f :: "(string \<times> requirements_f) list"

definition init_allocator_f :: allocator_f where
  "init_allocator_f =
     \<lparr>resources_f = [], pending_requests_f = [], allocated_resources_f = []\<rparr>"

definition register_resource_f ::
  "allocator_f \<Rightarrow> string \<Rightarrow> double \<Rightarrow> string \<Rightarrow> bool \<times> allocator_f" where
  "register_resource_f s name total' unit =
     (if map_of (resources_f s) name \<noteq> None then (False, s)
      else if dle total' (Fin 0) then (False, s)
      else (True, s\<lparr>resources_f :=
              AList.update name
                \<lparr>name_f = name, total_f = total', allocated_f = Fin 0, unit_f = unit\<rparr>
                (resources_f s)\<rparr>))"

fun validate_request_f :: "registry_f \<Rightarrow> requirements_f \<Rightarrow> bool" where
  "validate_request_f res [] = True"
| "validate_request_f res ((name, amount) # rest) =
     (if map_of res name = None then False
      else if dle amount (Fin 0) then False
      else validate_request_f res rest)"

fun check_availability_f :: "registry_f \<Rightarrow> requirements_f \<Rightarrow> error + bool" where
  "check_availability_f res [] = Inr True"
| "check_availability_f res ((name, amount) # rest) =
     (case map_of res name of
        None \<Rightarrow> Inl KeyError
      | Some r \<Rightarrow>
          (if \<not> can_allocate_f r amount then Inr False
           else check_availability_f res rest))"

fun allocate_loop_f :: "requirements_f \<Rightarrow> registry_f \<Rightarrow> error option \<times> registry_f" where
  "allocate_loop_f [] res = (None, res)"
| "allocate_loop_f ((name, amount) # rest) res =
     (case map_of res name of
        None \<Rightarrow> (Some KeyError, res)
      | Some r \<Rightarrow> allocate_loop_f rest (AList.update name (snd (allocate_f r amount)) res))"

definition allocate_resources_f ::
  "string \<Rightarrow> requirements_f \<Rightarrow> allocator_f \<Rightarrow> error option \<times> allocator_f" where
  "allocate_resources_f request_id reqs s =
     (let s1 = s\<lparr>allocated_resources_f :=
                   AList.update request_id reqs (allocated_resources_f s)\<rparr>;
          (e, res) = allocate_loop_f reqs (resources_f s1)
      in (e, s1\<lparr>resources_f := res\<rparr>))"

definition request_resources_f ::
  "allocator_f \<Rightarrow> string \<Rightarrow> requirements_f \<Rightarrow> int \<Rightarrow> double option \<Rightarrow> rat
     \<Rightarrow> (error + bool) \<times> allocator_f" where
  "request_resources_f s request_id reqs priority timeout now =
     (if \<not> validate_request_f (resources_f s) reqs then (Inr False, s)
      else
        (case check_availability_f (resources_f s) reqs of
           Inl e \<Rightarrow> (Inl e, s)
         | Inr avail \<Rightarrow>
             (if avail then
                (case allocate_resources_f request_id reqs s of
                   (Some e, s') \<Rightarrow> (Inl e, s')
                 | (None, s') \<Rightarrow> (Inr True, s'))
              else
                (Inr False,
                 s\<lparr>pending_requests_f := pending_requests_f s @
                     [\<lparr>id_f = request_id, requirements_of = reqs, priority_f = priority,
                       timeout_f = timeout, timestamp_f = now, granted_f = False\<rparr>]\<rparr>))))"

fun release_loop_f :: "requirements_f \<Rightarrow> registry_f \<Rightarrow> registry_f" where
  "release_loop_f [] res = res"
| "release_loop_f ((name, amount) # rest) res =
     (case map_of res name of
        None \<Rightarrow> release_loop_f rest res
      | Some r \<Rightarrow> release_loop_f rest (AList.update name (snd (release_f r amount)) res))"

text \<open>\<open>req.timeout is None or (current_time - req.timestamp) < req.timeout\<close>\<close>

definition not_expired_f :: "rat \<Rightarrow> ResourceRequest_f \<Rightarrow> bool" where
  "not_expired_f current_time req =
     (case timeout_f req of
        None \<Rightarrow> True
      | Some t \<Rightarrow> dlt (dsub (Fin current_time) (Fin (timestamp_f req))) t)"

definition pending_key_f :: "ResourceRequest_f \<Rightarrow> int \<times> rat" where
  "pending_key_f x = (- priority_f x, timestamp_f x)"

fun process_loop_f ::
  "ResourceRequest_f list \<Rightarrow> allocator_f
     \<Rightarrow> error option \<times> ResourceRequest_f list \<times> allocator_f" where
  "process_loop_f [] s = (None, [], s)"
| "process_loop_f (request # rest) s =
     (case check_availability_f (resources_f s) (requirements_of request) of
        Inl e \<Rightarrow> (Some e, request # rest, s)
      | Inr avail \<Rightarrow>
          (if avail then
             (case allocate_resources_f (id_f request) (requirements_of request) s of
                (Some e, s') \<Rightarrow> (Some e, request # rest, s')
              | (None, s') \<Rightarrow>
                  (case process_loop_f rest s' of
                     (e, rest', s'') \<Rightarrow> (e, request\<lparr>granted_f := True\<rparr> # rest', s'')))
           else
             (case process_loop_f rest s of
                (e, rest', s'') \<Rightarrow> (e, request # rest', s''))))"

definition process_pending_requests_f ::
  "rat \<Rightarrow> allocator_f \<Rightarrow> error option \<times> allocator_f" where
  "process_pending_requests_f current_time s =
     (let live = filter (not_expired_f current_time) (pending_requests_f s);
          ordered = sort_key pending_key_f live
      in case process_loop_f ordered s of
           (Some e, marked, s') \<Rightarrow> (Some e, s'\<lparr>pending_requests_f := marked\<rparr>)
         | (None, marked, s') \<Rightarrow>
             (None, s'\<lparr>pending_requests_f := filter (\<lambda>req. \<not> granted_f req) marked\<rparr>))"

definition release_resources_f :: "allocator_f \<Rightarrow> string \<Rightarrow> rat \<Rightarrow> bool \<times> allocator_f" where
  "release_resources_f s request_id now =
     (case map_of (allocated_resources_f s) request_id of
        None \<Rightarrow> (False, s)
      | Some recorded \<Rightarrow>
          (let s1 = s\<lparr>resources_f := release_loop_f recorded (resources_f s)\<rparr>;
               s2 = s1\<lparr>allocated_resources_f :=
                         AList.delete request_id (allocated_resources_f s1)\<rparr>
           in case process_pending_requests_f now s2 of
                (None, s3) \<Rightarrow> (True, s3)
              | (Some e, s3) \<Rightarrow> (False, s3)))"

datatype allocator_call_f =
    Register_f string double string
  | Request_f string requirements_f int "double option"
  | Release_f string

fun exec_call_f :: "allocator_f \<Rightarrow> allocator_call_f \<times> rat \<Rightarrow> allocator_f" where
  "exec_call_f s (Register_f name total' unit, now) =
     snd (register_resource_f s name total' unit)"
| "exec_call_f s (Request_f request_id reqs priority timeout, now) =
     snd (request_resources_f s request_id reqs priority timeout now)"
| "exec_call_f s (Release_f request_id, now) = snd (release_resources_f s request_id now)"

definition run_calls_f :: "allocator_f \<Rightarrow> (allocator_call_f \<times> rat) list \<Rightarrow> allocator_f" where
  "run_calls_f s calls = foldl exec_call_f s calls"

section \<open>TaskScheduler (task\_scheduler.py)\<close>

text \<open>
  A task dictionary. The callable and its arguments are opaque: a handle and payloads.
  A \<open>datetime\<close> is its number of microseconds since the epoch and a \<open>timedelta\<close> a
  number of microseconds; \<open>schedule_time.timestamp()\<close> is order-isomorphic to the
  datetime and is modelled by the same number.
\<close>

type_synonym payload = string

record sched_task =
  task_id :: string
  task_function :: nat
  schedule_time :: int
  task_priority :: int
  task_args :: payload
  task_kwargs :: payload
  recurring :: bool
  interval :: "int option"
  added_at :: int

text \<open>An entry of the queue: the tuple \<open>(priority, timestamp, task_id, task)\<close>.\<close>

type_synonym entry = "int \<times> int \<times> string \<times> sched_task"

definition entry_id :: "entry \<Rightarrow> string" where
  "entry_id e = fst (snd (snd e))"

definition entry_task :: "entry \<Rightarrow> sched_task" where
  "entry_task e = snd (snd (snd e))"

text \<open>
  \<open>queue.PriorityQueue\<close> is a binary heap of tuples: \<open>get_nowait\<close> removes the least
  entry, \<open>put\<close> adds one. Python compares the tuples lexicographically, strings by code
  point; the first three components decide whenever no two entries share a task id
  (what \<open>add_task\<close> and the scheduler loop maintain), and then the heap is observably
  the multiset of its entries. The model keeps the entries in a list and takes the
  least by \<open>entry_key\<close>.
\<close>

definition entry_key :: "entry \<Rightarrow> int \<times> int \<times> string" where
  "entry_key e = (fst e, fst (snd e), entry_id e)"

definition put :: "entry list \<Rightarrow> entry \<Rightarrow> entry list" where
  "put q e = q @ [e]"

text \<open>\<open>None\<close> is the exception \<open>Empty\<close>.\<close>

definition get_nowait :: "entry list \<Rightarrow> (entry \<times> entry list) option" where
  "get_nowait q =
     (if q = [] then None
      else (let m = arg_min_list entry_key q in Some (m, remove1 m q)))"

record scheduler =
  task_queue :: "entry list"
  registered_tasks :: "(string \<times> sched_task) list"

text \<open>\<open>TaskScheduler.__init__\<close>\<close>

definition init_scheduler :: scheduler where
  "init_scheduler = \<lparr>task_queue = [], registered_tasks = []\<rparr>"

text \<open>\<open>add_task\<close>; \<open>now\<close> is \<open>datetime.now()\<close>.\<close>

definition add_task ::
  "scheduler \<Rightarrow> string \<Rightarrow> nat \<Rightarrow> int \<Rightarrow> int \<Rightarrow> payload \<Rightarrow> payload \<Rightarrow> bool \<Rightarrow> int option
     \<Rightarrow> int \<Rightarrow> bool \<times> scheduler" where
  "add_task s tid task_func sched_time priority args kwargs recurring' interval' now =
     (if map_of (registered_tasks s) tid \<noteq> None then (False, s)
      else
        (let task = \<lparr>task_id = tid, task_function = task_func, schedule_time = sched_time,
                     task_priority = priority, task_args = args, task_kwargs = kwargs,
                     recurring = recurring', interval = interval', added_at = now\<rparr>
         in (True,
             s\<lparr>task_queue := put (task_queue s) (priority, sched_time, tid, task),
               registered_tasks := AList.update tid task (registered_tasks s)\<rparr>)))"

text \<open>\<open>task['recurring'] and task['interval']\<close>: a zero \<open>timedelta\<close> is falsy.\<close>

definition reschedules :: "sched_task \<Rightarrow> bool" where
  "reschedules task =
     (recurring task \<and> (case interval task of None \<Rightarrow> False | Some d \<Rightarrow> d \<noteq> 0))"

definition next_occurrence :: "sched_task \<Rightarrow> sched_task" where
  "next_occurrence task =
     task\<lparr>schedule_time := schedule_time task + (case interval task of None \<Rightarrow> 0 | Some d \<Rightarrow> d)\<rparr>"

text \<open>
  The inner \<open>while not self.task_queue.empty()\<close> loop of one pass of \<open>_scheduler_loop\<close>,
  at \<open>current_time = now\<close>. \<open>_execute_task\<close> hands the task to the worker pool: the
  model appends it to the list of dispatched tasks. The loop need not end (a recurring
  task with a negative interval is due again at once), so it runs on fuel, and \<open>None\<close>
  is "still running".
\<close>

fun drain ::
  "nat \<Rightarrow> int \<Rightarrow> scheduler \<Rightarrow> entry list \<Rightarrow> sched_task list
     \<Rightarrow> (scheduler \<times> entry list \<times> sched_task list) option" where
  "drain 0 now s pending_tasks dispatched = None"
| "drain (Suc fuel) now s pending_tasks dispatched =
     (case get_nowait (task_queue s) of
        None \<Rightarrow> Some (s, pending_tasks, dispatched)
      | Some ((priority, timestamp, tid, task), rest) \<Rightarrow>
          (let s1 = s\<lparr>task_queue := rest\<rparr> in
           if map_of (registered_tasks s1) tid = None then
             drain fuel now s1 pending_tasks dispatched
           else if now \<ge> schedule_time task then
             (if reschedules task then
                (let new_task = next_occurrence task;
                     s2 = s1\<lparr>registered_tasks := AList.update tid new_task (registered_tasks s1)\<rparr>;
                     s3 = s2\<lparr>task_queue :=
                            put (task_queue s2) (priority, schedule_time new_task, tid, new_task)\<rparr>
                 in drain fuel now s3 pending_tasks (dispatched @ [task]))
              else drain fuel now s1 pending_tasks (dispatched @ [task]))
           else
             drain fuel now s1 (pending_tasks @ [(priority, timestamp, tid, task)]) dispatched))"

text \<open>
  One pass of \<open>_scheduler_loop\<close>: drain the queue, then put the tasks that are not yet
  due back. It returns the scheduler and the tasks dispatched, in dispatch order.
\<close>

definition scheduler_pass :: "nat \<Rightarrow> int \<Rightarrow> scheduler \<Rightarrow> (scheduler \<times> sched_task list) option" where
  "scheduler_pass fuel now s =
     (case drain fuel now s [] [] of
        None \<Rightarrow> None
      | Some (s', pending_tasks, dispatched) \<Rightarrow>
          Some (s'\<lparr>task_queue := foldl put (task_queue s') pending_tasks\<rparr>, dispatched))"

section \<open>Statements about PriorityManager: auxiliary definitions\<close>

text \<open>
  The keys \<open>calculate_priority\<close> reads. A task is numeric when each of the five
  weighted factors is absent or holds a float or an int that converts to a float, and
  the blocking count is absent or holds a float or an int. \<open>num_of\<close> is the number under
  a key at its exact value (0 for an absent key, the default of \<open>task.get\<close>), which is
  what a comparison reads; \<open>float_of\<close> is the float an arithmetic operator makes of it.
\<close>

definition priority_keys :: "string list" where
  "priority_keys =
     [''deadline'', ''importance'', ''effort'', ''dependencies'', ''user_preference'',
      ''blocking_count'']"

fun is_number :: "pyval option \<Rightarrow> bool" where
  "is_number None = True"
| "is_number (Some (PyInt i)) = (float_of_int i \<noteq> Inl OverflowError)"
| "is_number (Some (PyFloat x)) = True"
| "is_number (Some (Str s)) = False"
| "is_number (Some NoneVal) = False"

fun is_numeric :: "pyval option \<Rightarrow> bool" where
  "is_numeric None = True"
| "is_numeric (Some (PyInt i)) = True"
| "is_numeric (Some (PyFloat x)) = True"
| "is_numeric (Some (Str s)) = False"
| "is_numeric (Some NoneVal) = False"

definition factor_keys :: "string list" where
  "factor_keys = [''deadline'', ''importance'', ''effort'', ''dependencies'', ''user_preference'']"

definition numeric_task :: "task \<Rightarrow> bool" where
  "numeric_task t =
     (list_all (\<lambda>k. is_number (t k)) factor_keys \<and> is_numeric (t ''blocking_count''))"

fun exact_value :: "pyval option \<Rightarrow> double" where
  "exact_value (Some (PyInt i)) = Fin (of_int i)"
| "exact_value (Some (PyFloat x)) = x"
| "exact_value v = Fin 0"

fun float_value :: "pyval option \<Rightarrow> double" where
  "float_value (Some (PyInt i)) = round_double (of_int i)"
| "float_value (Some (PyFloat x)) = x"
| "float_value v = Fin 0"

definition num_of :: "task \<Rightarrow> string \<Rightarrow> double" where
  "num_of t k = exact_value (t k)"

definition float_of :: "task \<Rightarrow> string \<Rightarrow> double" where
  "float_of t k = float_value (t k)"

text \<open>
  What \<open>calculate_priority\<close> computes for a numeric task, in the order the code
  computes it, every operation rounded: the weighted sum of the five factors, then the
  bonus for an importance of at least 0.8, the bonus \<open>0.2 * min(blocking_count, 5)\<close>
  for a positive blocking count, and the bonus \<open>user_preference * 0.15\<close>, the last two
  added when they are not zero.
\<close>

definition weighted_sum :: "task \<Rightarrow> double" where
  "weighted_sum t =
     dadd (dadd (dadd (dadd (dadd (Fin 0)
       (dmul (float_of t ''deadline'') (round_double (3 / 10))))
       (dmul (float_of t ''importance'') (round_double (25 / 100))))
       (dmul (float_of t ''effort'') (round_double (2 / 10))))
       (dmul (float_of t ''dependencies'') (round_double (15 / 100))))
       (dmul (float_of t ''user_preference'') (round_double (1 / 10)))"

definition add_bonus :: "double \<Rightarrow> double \<Rightarrow> double" where
  "add_bonus acc bonus = (if bonus \<noteq> Fin 0 then dadd acc bonus else acc)"

definition importance_bonus :: "task \<Rightarrow> double" where
  "importance_bonus t =
     (if dle (round_double (8 / 10)) (num_of t ''importance'') then round_double (25 / 100)
      else Fin 0)"

definition blocking_bonus :: "task \<Rightarrow> double" where
  "blocking_bonus t =
     (if dlt (Fin 0) (num_of t ''blocking_count'')
      then dmul (if dlt (Fin 5) (num_of t ''blocking_count'') then Fin 5
                 else float_of t ''blocking_count'')
             (round_double (2 / 10))
      else Fin 0)"

definition preference_bonus :: "task \<Rightarrow> double" where
  "preference_bonus t = dmul (float_of t ''user_preference'') (round_double (15 / 100))"

definition code_score :: "task \<Rightarrow> double" where
  "code_score t =
     add_bonus (add_bonus (add_bonus (weighted_sum t) (importance_bonus t)) (blocking_bonus t))
       (preference_bonus t)"

text \<open>
  The specification's reading of the priority function, written from its words: the
  input bundle \<open>PriorityInput\<close>, the score with its three bonus rules, the thresholds;
  real arithmetic. \<open>input_task\<close> is the task dictionary a caller builds from the
  bundle, each number as the nearest float: urgency under the key \<open>deadline\<close>,
  \<open>min(blockingCount,5)/5\<close> under \<open>dependencies\<close>.
\<close>

record PriorityInput =
  urgency :: rat
  importance :: rat
  effort :: rat
  blockingCount :: int
  userPreference :: rat

definition spec_score :: "PriorityInput \<Rightarrow> rat" where
  "spec_score inp =
     3 / 10 * urgency inp + 25 / 100 * importance inp + 2 / 10 * effort inp
     + 15 / 100 * (of_int (min (blockingCount inp) 5) / 5) + 1 / 10 * userPreference inp
     + (if urgency inp \<ge> 1 then 3 / 10 else 0)
     + (if importance inp \<ge> 8 / 10 then 25 / 100 else 0)
     + (if blockingCount inp > 0 then 2 / 10 * of_int (min (blockingCount inp) 5) else 0)"

definition spec_level :: "rat \<Rightarrow> PriorityLevel" where
  "spec_level score =
     (if score \<ge> 8 / 10 then CRITICAL
      else if score \<ge> 6 / 10 then HIGH
      else if score \<ge> 4 / 10 then MEDIUM
      else if score \<ge> 2 / 10 then LOW
      else NONE)"

definition spec_calculate :: "PriorityInput \<Rightarrow> PriorityLevel" where
  "spec_calculate inp = spec_level (spec_score inp)"

definition input_task :: "PriorityInput \<Rightarrow> task" where
  "input_task inp =
     [''deadline'' \<mapsto> PyFloat (round_double (urgency inp)),
      ''importance'' \<mapsto> PyFloat (round_double (importance inp)),
      ''effort'' \<mapsto> PyFloat (round_double (effort inp)),
      ''dependencies'' \<mapsto> PyFloat (round_double (of_int (min (blockingCount inp) 5) / 5)),
      ''blocking_count'' \<mapsto> PyInt (blockingCount inp),
      ''user_preference'' \<mapsto> PyFloat (round_double (userPreference inp))]"

text \<open>
  The ranges of the specification's \<open>PriorityInput\<close>, read on a task dictionary: the
  five weighted factors are absent or numbers from 0 to 1 (a float, or the int 0 or 1),
  the blocking count is absent or an int that is not negative. \<open>unit_value\<close> is the
  number held, and \<open>task_le\<close> compares two tasks key by key.
\<close>

fun in_unit :: "pyval option \<Rightarrow> bool" where
  "in_unit None = True"
| "in_unit (Some (PyInt i)) = (i = 0 \<or> i = 1)"
| "in_unit (Some (PyFloat (Fin q))) = (0 \<le> q \<and> q \<le> 1)"
| "in_unit (Some (PyFloat PInf)) = False"
| "in_unit (Some (PyFloat NInf)) = False"
| "in_unit (Some (PyFloat NaN)) = False"
| "in_unit (Some (Str s)) = False"
| "in_unit (Some NoneVal) = False"

fun is_count :: "pyval option \<Rightarrow> bool" where
  "is_count None = True"
| "is_count (Some (PyInt i)) = (0 \<le> i)"
| "is_count (Some (PyFloat x)) = False"
| "is_count (Some (Str s)) = False"
| "is_count (Some NoneVal) = False"

fun unit_value :: "pyval option \<Rightarrow> rat" where
  "unit_value (Some (PyInt i)) = of_int i"
| "unit_value (Some (PyFloat (Fin q))) = q"
| "unit_value v = 0"

definition in_range :: "task \<Rightarrow> bool" where
  "in_range t =
     (in_unit (t ''deadline'') \<and> in_unit (t ''importance'') \<and> in_unit (t ''effort'')
      \<and> in_unit (t ''dependencies'') \<and> in_unit (t ''user_preference'')
      \<and> is_count (t ''blocking_count''))"

definition task_le :: "task \<Rightarrow> task \<Rightarrow> bool" where
  "task_le t t' = list_all (\<lambda>k. unit_value (t k) \<le> unit_value (t' k)) priority_keys"

text \<open>
  The specification's \<open>adjustForContext\<close>, written from its words: one step down in the
  off-hours window below CRITICAL, then independently one more step down when
  availability is under 0.3, never below NONE.
\<close>

definition spec_adjustForContext :: "PriorityLevel \<Rightarrow> int \<Rightarrow> rat \<Rightarrow> error + PriorityLevel" where
  "spec_adjustForContext level hour availability =
     (let step1 = (if (hour \<ge> 22 \<or> hour \<le> 6) \<and> level_value level < level_value CRITICAL
                   then max (level_value level - 1) 0 else level_value level);
          step2 = (if availability < 3 / 10 then max (step1 - 1) 0 else step1)
      in level_of_value step2)"

section \<open>Statements about ResourceAllocator: auxiliary definitions\<close>


definition required_amount :: "requirements \<Rightarrow> string \<Rightarrow> rat" where
  "required_amount reqs n = (case map_of reqs n of None \<Rightarrow> 0 | Some a \<Rightarrow> a)"

text \<open>What the allocation records of all request ids together hold of a resource.\<close>

definition recorded_total :: "(string \<times> requirements) list \<Rightarrow> string \<Rightarrow> rat" where
  "recorded_total recs n = sum_list (map (\<lambda>(rid, reqs). required_amount reqs n) recs)"

definition registry_bounded :: "registry \<Rightarrow> bool" where
  "registry_bounded res =
     (\<forall>n r. map_of res n = Some r \<longrightarrow> 0 \<le> res_allocated r \<and> res_allocated r \<le> res_total r)"

text \<open>
  Well-formed states. A requirements dictionary has one entry per name
  (\<open>distinct (map fst reqs)\<close>). The invariant of the states the public interface
  reaches: one registry entry per name, amounts within bounds, queued requests
  unflagged and over registered names with positive amounts, one record per request id, records over
  registered names with positive amounts, and no resource with less allocated than
  the records hold of it.
\<close>

definition known_names :: "registry \<Rightarrow> requirements \<Rightarrow> bool" where
  "known_names res reqs = list_all (\<lambda>(n, a). map_of res n \<noteq> None) reqs"

definition wf_request :: "registry \<Rightarrow> ResourceRequest \<Rightarrow> bool" where
  "wf_request res q =
     (\<not> req_allocated q \<and> distinct (map fst (req_requirements q))
      \<and> known_names res (req_requirements q)
      \<and> list_all (\<lambda>(n, a). 0 < a) (req_requirements q))"

definition wf_record :: "registry \<Rightarrow> requirements \<Rightarrow> bool" where
  "wf_record res reqs =
     (distinct (map fst reqs) \<and> known_names res reqs \<and> list_all (\<lambda>(n, a). 0 < a) reqs)"

definition allocator_inv :: "allocator \<Rightarrow> bool" where
  "allocator_inv s =
     (distinct (map fst (resources s))
      \<and> list_all (\<lambda>(n, r). 0 \<le> res_allocated r \<and> res_allocated r \<le> res_total r) (resources s)
      \<and> list_all (wf_request (resources s)) (pending_requests s)
      \<and> distinct (map fst (allocated_resources s))
      \<and> list_all (\<lambda>(rid, reqs). wf_record (resources s) reqs) (allocated_resources s)
      \<and> list_all (\<lambda>(n, r). recorded_total (allocated_resources s) n \<le> res_allocated r)
           (resources s))"

text \<open>A call whose requirements argument is a dictionary.\<close>

fun wf_call :: "allocator_call \<times> rat \<Rightarrow> bool" where
  "wf_call (Request request_id reqs priority timeout, now) = distinct (map fst reqs)"
| "wf_call (Register name total' unit, now) = True"
| "wf_call (Release request_id, now) = True"

text \<open>
  The reprocessing of the pending queue as the specification words it. A request is
  satisfiable when every resource it names has the requested amount available;
  granting adds the full amount to every named resource and records the request;
  giving back subtracts the recorded amounts. The walk visits the live requests in
  descending priority, ties in ascending enqueue time, grants each satisfiable one and
  keeps the others queued.
\<close>

definition satisfiable :: "registry \<Rightarrow> requirements \<Rightarrow> bool" where
  "satisfiable res reqs =
     list_all (\<lambda>(n, a). case map_of res n of
                           None \<Rightarrow> False
                         | Some r \<Rightarrow> 0 \<le> a \<and> a \<le> available r) reqs"

definition grant :: "requirements \<Rightarrow> registry \<Rightarrow> registry" where
  "grant reqs res =
     map (\<lambda>(n, r). (n, r\<lparr>res_allocated := res_allocated r + required_amount reqs n\<rparr>)) res"

definition give_back :: "requirements \<Rightarrow> registry \<Rightarrow> registry" where
  "give_back reqs res =
     map (\<lambda>(n, r). (n, r\<lparr>res_allocated := res_allocated r - required_amount reqs n\<rparr>)) res"

fun spec_walk ::
  "ResourceRequest list \<Rightarrow> registry \<Rightarrow> (string \<times> requirements) list
     \<Rightarrow> ResourceRequest list \<times> ResourceRequest list \<times> registry \<times> (string \<times> requirements) list"
  where
  "spec_walk [] res recs = ([], [], res, recs)"
| "spec_walk (q # qs) res recs =
     (if satisfiable res (req_requirements q) then
        (case spec_walk qs (grant (req_requirements q) res)
                (AList.update (req_id q) (req_requirements q) recs) of
           (granted, kept, res', recs') \<Rightarrow> (q # granted, kept, res', recs'))
      else
        (case spec_walk qs res recs of
           (granted, kept, res', recs') \<Rightarrow> (granted, q # kept, res', recs')))"

definition spec_order :: "rat \<Rightarrow> ResourceRequest list \<Rightarrow> ResourceRequest list" where
  "spec_order now pending =
     sort_key (\<lambda>q. (- req_priority q, req_timestamp q)) (filter (not_expired now) pending)"

definition spec_reprocess :: "rat \<Rightarrow> allocator \<Rightarrow> allocator" where
  "spec_reprocess now s =
     (case spec_walk (spec_order now (pending_requests s)) (resources s) (allocated_resources s) of
        (granted, kept, res', recs') \<Rightarrow>
          \<lparr>resources = res', pending_requests = kept, allocated_resources = recs'\<rparr>)"




section \<open>Statements about TaskScheduler: auxiliary definitions\<close>

text \<open>The key the queue orders a task by, read from the task's own fields.\<close>

definition task_key :: "sched_task \<Rightarrow> int \<times> int \<times> string" where
  "task_key t = (task_priority t, schedule_time t, task_id t)"

text \<open>
  What \<open>add_task\<close> and the scheduler loop maintain of a queue entry: the tuple repeats
  the fields of its task. A recurring task is expected to have an interval that is not
  negative.
\<close>

definition entry_consistent :: "entry \<Rightarrow> bool" where
  "entry_consistent e = (entry_key e = task_key (entry_task e))"

definition forward_interval :: "sched_task \<Rightarrow> bool" where
  "forward_interval t = (case interval t of None \<Rightarrow> True | Some d \<Rightarrow> 0 \<le> d)"

definition queue_ok :: "entry list \<Rightarrow> bool" where
  "queue_ok q = list_all (\<lambda>e. entry_consistent e \<and> forward_interval (entry_task e)) q"



text \<open>
  How many times the loop takes an entry (and its later occurrences) off the queue
  within one pass at time \<open>now\<close>: the bound on the fuel the pass needs.
\<close>

definition rounds :: "int \<Rightarrow> entry \<Rightarrow> nat" where
  "rounds now e =
     (let t = entry_task e in
      if schedule_time t \<le> now \<and> reschedules t
      then nat ((now - schedule_time t) div (case interval t of None \<Rightarrow> 1 | Some d \<Rightarrow> d)) + 2
      else 1)"

text \<open>Two tasks due at time 0: \<open>A\<close> with priority 1 and \<open>B\<close> with priority 5.\<close>

definition two_tasks :: scheduler where
  "two_tasks =
     snd (add_task (snd (add_task init_scheduler ''B'' 0 0 5 [] [] False None 0))
            ''A'' 1 0 1 [] [] False None 0)"

text \<open>
  One iteration of the loop body on a queue that is not empty, as a function of the
  loop's variables (the scheduler, \<open>pending_tasks\<close>, the tasks dispatched so far).
\<close>

definition loop_step ::
  "int \<Rightarrow> scheduler \<times> entry list \<times> sched_task list
     \<Rightarrow> scheduler \<times> entry list \<times> sched_task list" where
  "loop_step now c =
     (case c of (s, pending_tasks, dispatched) \<Rightarrow>
        (case get_nowait (task_queue s) of
           None \<Rightarrow> c
         | Some ((priority, timestamp, tid, task), rest) \<Rightarrow>
             (if map_of (registered_tasks s) tid = None then
                (s\<lparr>task_queue := rest\<rparr>, pending_tasks, dispatched)
              else if now \<ge> schedule_time task then
                (if reschedules task then
                   (s\<lparr>registered_tasks :=
                        AList.update tid (next_occurrence task) (registered_tasks s),
                      task_queue :=
                        put rest (priority, schedule_time (next_occurrence task), tid,
                                  next_occurrence task)\<rparr>,
                    pending_tasks, dispatched @ [task])
                 else (s\<lparr>task_queue := rest\<rparr>, pending_tasks, dispatched @ [task]))
              else
                (s\<lparr>task_queue := rest\<rparr>,
                 pending_tasks @ [(priority, timestamp, tid, task)], dispatched))))"

definition total_rounds :: "int \<Rightarrow> entry list \<Rightarrow> nat" where
  "total_rounds now q = sum_list (map (rounds now) q)"



text \<open>
  What justifies reading the heap order off \<open>entry_key\<close>: no two queued entries share
  a task id, and every queued id is registered.
\<close>

definition sched_inv :: "scheduler \<Rightarrow> bool" where
  "sched_inv s =
     (distinct (map entry_id (task_queue s))
      \<and> list_all (\<lambda>e. map_of (registered_tasks s) (entry_id e) \<noteq> None) (task_queue s))"

section \<open>Statements about ResourceAllocator on floats: auxiliary definitions\<close>

text \<open>
  Well-formed states of the float model: one registry entry per name, queued requests
  unflagged, with one entry per name and over registered names, and allocation records
  with one entry per name. A call is well formed when its requirements argument is a
  dictionary.
\<close>

definition known_names_f :: "registry_f \<Rightarrow> requirements_f \<Rightarrow> bool" where
  "known_names_f res reqs = list_all (\<lambda>(n, a). map_of res n \<noteq> None) reqs"

definition wf_request_f :: "registry_f \<Rightarrow> ResourceRequest_f \<Rightarrow> bool" where
  "wf_request_f res q =
     (\<not> granted_f q \<and> distinct (map fst (requirements_of q))
      \<and> known_names_f res (requirements_of q))"

definition allocator_wf :: "allocator_f \<Rightarrow> bool" where
  "allocator_wf s =
     (distinct (map fst (resources_f s))
      \<and> list_all (wf_request_f (resources_f s)) (pending_requests_f s)
      \<and> list_all (\<lambda>(rid, reqs). distinct (map fst reqs)) (allocated_resources_f s))"

fun wf_call_f :: "allocator_call_f \<times> rat \<Rightarrow> bool" where
  "wf_call_f (Request_f request_id reqs priority timeout, now) = distinct (map fst reqs)"
| "wf_call_f (Register_f name total' unit, now) = True"
| "wf_call_f (Release_f request_id, now) = True"

text \<open>
  The release and the reprocessing as the amended claim words them. A request is
  satisfiable when every resource it names has the requested amount available, in
  float arithmetic; granting adds the amount to every named resource and records the
  request; giving back subtracts the recorded amount from every named resource that
  has at least that much allocated, and leaves a resource alone whose recorded amount
  is negative or more than it has allocated. The walk visits the live requests in
  descending priority, ties in ascending enqueue time, grants each request that is
  satisfiable when it is visited and keeps the others queued.
\<close>

definition satisfiable_f :: "registry_f \<Rightarrow> requirements_f \<Rightarrow> bool" where
  "satisfiable_f res reqs =
     list_all (\<lambda>(n, a). case map_of res n of
                           None \<Rightarrow> False
                         | Some r \<Rightarrow> dle (Fin 0) a \<and> dle a (available_f r)) reqs"

definition grant_f :: "requirements_f \<Rightarrow> registry_f \<Rightarrow> registry_f" where
  "grant_f reqs res =
     map (\<lambda>(n, r). (n, case map_of reqs n of
                          None \<Rightarrow> r
                        | Some a \<Rightarrow> r\<lparr>allocated_f := dadd (allocated_f r) a\<rparr>)) res"

definition give_back_f :: "requirements_f \<Rightarrow> registry_f \<Rightarrow> registry_f" where
  "give_back_f reqs res =
     map (\<lambda>(n, r). (n, case map_of reqs n of
                          None \<Rightarrow> r
                        | Some a \<Rightarrow>
                            if dlt a (Fin 0) \<or> dlt (allocated_f r) a then r
                            else r\<lparr>allocated_f := dsub (allocated_f r) a\<rparr>)) res"

fun spec_walk_f ::
  "ResourceRequest_f list \<Rightarrow> registry_f \<Rightarrow> (string \<times> requirements_f) list
     \<Rightarrow> ResourceRequest_f list \<times> ResourceRequest_f list \<times> registry_f
        \<times> (string \<times> requirements_f) list"
  where
  "spec_walk_f [] res recs = ([], [], res, recs)"
| "spec_walk_f (q # qs) res recs =
     (if satisfiable_f res (requirements_of q) then
        (case spec_walk_f qs (grant_f (requirements_of q) res)
                (AList.update (id_f q) (requirements_of q) recs) of
           (granted, kept, res', recs') \<Rightarrow> (q # granted, kept, res', recs'))
      else
        (case spec_walk_f qs res recs of
           (granted, kept, res', recs') \<Rightarrow> (granted, q # kept, res', recs')))"

definition spec_order_f :: "rat \<Rightarrow> ResourceRequest_f list \<Rightarrow> ResourceRequest_f list" where
  "spec_order_f now pending =
     sort_key (\<lambda>q. (- priority_f q, timestamp_f q)) (filter (not_expired_f now) pending)"

definition spec_reprocess_f :: "rat \<Rightarrow> allocator_f \<Rightarrow> allocator_f" where
  "spec_reprocess_f now s =
     (case spec_walk_f (spec_order_f now (pending_requests_f s)) (resources_f s)
             (allocated_resources_f s) of
        (granted, kept, res', recs') \<Rightarrow>
          \<lparr>resources_f = res', pending_requests_f = kept, allocated_resources_f = recs'\<rparr>)"


section \<open>Floats: properties of the rounding\<close>

lemma round_even_of_int [simp]: "round_even (of_int n) = n"
  by (simp add: round_even_def)

lemma round_even_numeral [simp]: "round_even (numeral n) = numeral n"
  using round_even_of_int[of "numeral n"] by (simp del: round_even_of_int)

lemma round_even_0 [simp]: "round_even 0 = 0"
  using round_even_of_int[of 0] by (simp del: round_even_of_int)

lemma round_even_bounds:
  "of_int \<lfloor>q\<rfloor> \<le> (of_int (round_even q) :: rat)" "round_even q \<le> \<lfloor>q\<rfloor> + 1"
  by (auto simp: round_even_def Let_def)

lemma round_even_mono:
  assumes "q \<le> q'"
  shows "round_even q \<le> round_even q'"
proof (cases "\<lfloor>q\<rfloor> = \<lfloor>q'\<rfloor>")
  case True
  then show ?thesis using assms by (auto simp: round_even_def Let_def)
next
  case False
  then have "\<lfloor>q\<rfloor> < \<lfloor>q'\<rfloor>" using floor_mono[OF assms] by linarith
  then have "round_even q \<le> \<lfloor>q'\<rfloor>" using round_even_bounds(2)[of q] by linarith
  also have "\<dots> \<le> round_even q'" using round_even_bounds(1)[of q'] by simp
  finally show ?thesis .
qed


lemma binade_scan_range: "e \<le> binade_scan n e x \<and> binade_scan n e x \<le> e + int n"
proof (induction n arbitrary: e)
  case 0
  then show ?case by simp
next
  case (Suc n)
  show ?case using Suc[of "e + 1"] by auto
qed

lemma binade_scan_lower: "binade_scan n e x = e \<or> 2 powi (binade_scan n e x) \<le> x"
proof (induction n arbitrary: e)
  case 0
  then show ?case by simp
next
  case (Suc n)
  show ?case
  proof (cases "2 powi (e + 1) \<le> x")
    case True
    then show ?thesis using Suc[of "e + 1"] by auto
  next
    case False
    then show ?thesis by simp
  qed
qed

lemma binade_scan_upper:
  "binade_scan n e x = e + int n \<or> x < 2 powi (binade_scan n e x + 1)"
proof (induction n arbitrary: e)
  case 0
  then show ?case by simp
next
  case (Suc n)
  show ?case
  proof (cases "2 powi (e + 1) \<le> x")
    case True
    then show ?thesis using Suc[of "e + 1"] by (auto simp: algebra_simps)
  next
    case False
    then show ?thesis by simp
  qed
qed

lemma binade_range: "- 1022 \<le> binade x" "binade x \<le> 1023"
  using binade_scan_range[of "- 1022" 2045 "\<bar>x\<bar>"] by (simp_all add: binade_def)

lemma binade_lower: "binade x = - 1022 \<or> 2 powi (binade x) \<le> \<bar>x\<bar>"
  using binade_scan_lower[of 2045 "- 1022" "\<bar>x\<bar>"] by (simp add: binade_def)

lemma binade_upper: "binade x = 1023 \<or> \<bar>x\<bar> < 2 powi (binade x + 1)"
  using binade_scan_upper[of 2045 "- 1022" "\<bar>x\<bar>"] by (simp add: binade_def)

lemma pow2_mono: "a \<le> b \<Longrightarrow> (2::rat) powi a \<le> 2 powi b"
  by (rule power_int_increasing) simp_all

lemma pow2_pos [simp]: "0 < (2::rat) powi a"
  by (simp add: zero_less_power_int)

lemma binade_eqI:
  assumes "- 1022 \<le> k" "k \<le> 1023"
    and lo: "k = - 1022 \<or> 2 powi k \<le> \<bar>x\<bar>"
    and hi: "k = 1023 \<or> \<bar>x\<bar> < 2 powi (k + 1)"
  shows "binade x = k"
proof (rule ccontr)
  assume ne: "binade x \<noteq> k"
  show False
  proof (cases "binade x < k")
    case True
    then have "binade x \<noteq> 1023" using assms(2) by linarith
    then have "\<bar>x\<bar> < 2 powi (binade x + 1)" using binade_upper[of x] by blast
    also have "\<dots> \<le> 2 powi k" using True by (intro pow2_mono) simp
    finally have "\<bar>x\<bar> < 2 powi k" .
    moreover have "k \<noteq> - 1022" using True binade_range(1)[of x] by linarith
    ultimately show False using lo by simp
  next
    case False
    then have gt: "k < binade x" using ne by linarith
    then have "binade x \<noteq> - 1022" using assms(1) by linarith
    then have "2 powi (binade x) \<le> \<bar>x\<bar>" using binade_lower[of x] by blast
    moreover have "2 powi (k + 1) \<le> (2::rat) powi (binade x)" using gt by (intro pow2_mono) simp
    moreover have "k \<noteq> 1023" using gt binade_range(2)[of x] by linarith
    ultimately show False using hi by simp
  qed
qed

lemma binade_mono:
  assumes "\<bar>x\<bar> \<le> \<bar>y\<bar>"
  shows "binade x \<le> binade y"
proof (rule ccontr)
  assume "\<not> binade x \<le> binade y"
  then have gt: "binade y < binade x" by simp
  then have "binade x \<noteq> - 1022" using binade_range(1)[of y] by linarith
  then have "2 powi (binade x) \<le> \<bar>x\<bar>" using binade_lower[of x] by blast
  moreover have "binade y \<noteq> 1023" using gt binade_range(2)[of x] by linarith
  then have "\<bar>y\<bar> < 2 powi (binade y + 1)" using binade_upper[of y] by blast
  moreover have "2 powi (binade y + 1) \<le> (2::rat) powi (binade x)"
    using gt by (intro pow2_mono) simp
  ultimately show False using assms by linarith
qed

lemma pow2_shift: "(2::rat) powi (a + int n) = 2 powi a * 2 ^ n"
  by (simp add: power_int_add)

text \<open>The scaled value lies between 0 and 2^53, and from 2^52 on in a normal binade.\<close>

lemma scaled_upper:
  assumes "0 \<le> x" "binade x \<noteq> 1023"
  shows "x / 2 powi (binade x - 52) \<le> 2 ^ 53"
proof -
  have "x < 2 powi (binade x + 1)" using binade_upper[of x] assms by simp
  also have "(2::rat) powi (binade x + 1) = 2 powi (binade x - 52) * 2 ^ 53"
    using pow2_shift[of "binade x - 52" 53] by (simp add: add.commute)
  finally show ?thesis by (simp add: pos_divide_le_eq mult.commute)
qed


lemma scaled_lower:
  assumes "0 \<le> x" "binade x \<noteq> - 1022"
  shows "2 ^ 52 \<le> x / 2 powi (binade x - 52)"
proof -
  have "(2::rat) powi (binade x) = 2 powi (binade x - 52) * 2 ^ 52"
    using pow2_shift[of "binade x - 52" 52] by simp
  moreover have "2 powi (binade x) \<le> x" using binade_lower[of x] assms by simp
  ultimately show ?thesis by (simp add: pos_le_divide_eq mult.commute)
qed

lemma nearest_upper:
  assumes "0 \<le> x" "binade x \<noteq> 1023"
  shows "nearest x \<le> 2 powi (binade x + 1)"
proof -
  have "round_even (x / 2 powi (binade x - 52)) \<le> round_even (of_int (2 ^ 53))"
    using scaled_upper[OF assms] by (intro round_even_mono) simp
  then have "round_even (x / 2 powi (binade x - 52)) \<le> 2 ^ 53" by simp
  then have "(of_int (round_even (x / 2 powi (binade x - 52))) :: rat) \<le> of_int (2 ^ 53)"
    by (simp only: of_int_le_iff)
  then have "nearest x \<le> 2 ^ 53 * 2 powi (binade x - 52)"
    unfolding nearest_def by (intro mult_right_mono) simp_all
  also have "\<dots> = 2 powi (binade x + 1)"
    using pow2_shift[of "binade x - 52" 53] by (simp add: add.commute)
  finally show ?thesis .
qed

lemma nearest_lower:
  assumes "0 \<le> x" "binade x \<noteq> - 1022"
  shows "2 powi (binade x) \<le> nearest x"
proof -
  have "round_even (of_int (2 ^ 52)) \<le> round_even (x / 2 powi (binade x - 52))"
    using scaled_lower[OF assms] by (intro round_even_mono) simp
  then have "2 ^ 52 \<le> round_even (x / 2 powi (binade x - 52))" by simp
  then have "(of_int (2 ^ 52) :: rat) \<le> of_int (round_even (x / 2 powi (binade x - 52)))"
    by (simp only: of_int_le_iff)
  then have "2 ^ 52 * 2 powi (binade x - 52) \<le> nearest x"
    unfolding nearest_def by (intro mult_right_mono) simp_all
  moreover have "2 ^ 52 * 2 powi (binade x - 52) = (2::rat) powi (binade x)"
    using pow2_shift[of "binade x - 52" 52] by simp
  ultimately show ?thesis by simp
qed

lemma nearest_nonneg: "0 \<le> x \<Longrightarrow> 0 \<le> nearest x"
proof -
  assume x: "0 \<le> x"
  have "round_even (of_int 0) \<le> round_even (x / 2 powi (binade x - 52))"
    using x by (intro round_even_mono) simp
  then have "0 \<le> round_even (x / 2 powi (binade x - 52))" by simp
  then show ?thesis unfolding nearest_def by simp
qed

lemma nearest_mono:
  assumes "0 \<le> x" "x \<le> y"
  shows "nearest x \<le> nearest y"
proof (cases "binade x = binade y")
  case True
  have "x / 2 powi (binade y - 52) \<le> y / 2 powi (binade y - 52)"
    using assms(2) by (simp add: divide_right_mono)
  then have "round_even (x / 2 powi (binade y - 52)) \<le> round_even (y / 2 powi (binade y - 52))"
    by (rule round_even_mono)
  then show ?thesis unfolding nearest_def True by (simp add: mult_right_mono)
next
  case False
  have y: "0 \<le> y" using assms by simp
  have "binade x \<le> binade y" using assms by (intro binade_mono) simp
  then have lt: "binade x < binade y" using False by simp
  then have nx: "binade x \<noteq> 1023" and ny: "binade y \<noteq> - 1022"
    using binade_range[of x] binade_range[of y] by linarith+
  have "nearest x \<le> 2 powi (binade x + 1)" using assms(1) nx by (rule nearest_upper)
  also have "\<dots> \<le> 2 powi (binade y)" using lt by (intro pow2_mono) simp
  also have "\<dots> \<le> nearest y" using y ny by (rule nearest_lower)
  finally show ?thesis .
qed


lemma nearest_eval:
  assumes "- 1022 \<le> e" "e \<le> 1023"
    and "e = - 1022 \<or> 2 powi e \<le> \<bar>x\<bar>"
    and "e = 1023 \<or> \<bar>x\<bar> < 2 powi (e + 1)"
  shows "nearest x = of_int (round_even (x / 2 powi (e - 52))) * 2 powi (e - 52)"
  using binade_eqI[OF assms] by (simp add: nearest_def)



lemma round_even_divide:
  assumes "0 < b"
  shows "round_even (of_int a / of_int b) =
     (if 2 * (a mod b) < b then a div b
      else if b < 2 * (a mod b) then a div b + 1
      else if even (a div b) then a div b else a div b + 1)"
proof -
  have f: "\<lfloor>(of_int a / of_int b :: rat)\<rfloor> = a div b" by (rule floor_divide_of_int_eq)
  have "a = a div b * b + a mod b" by simp
  then have "(of_int a :: rat) = of_int (a div b * b + a mod b)" by (rule arg_cong)
  then have e: "(of_int a :: rat) = of_int (a div b) * of_int b + of_int (a mod b)"
    by (simp only: of_int_add of_int_mult)
  have b0: "(of_int b :: rat) \<noteq> 0" using assms by simp
  have "(of_int a / of_int b :: rat)
      = (of_int (a div b) * of_int b + of_int (a mod b)) / of_int b"
    by (subst e) (rule refl)
  also have "\<dots> = of_int (a div b) + of_int (a mod b) / of_int b"
    using b0 by (simp add: add_divide_distrib)
  finally have "(of_int a / of_int b :: rat) = of_int (a div b) + of_int (a mod b) / of_int b" .
  then have r: "(of_int a / of_int b :: rat) - of_int (a div b) = of_int (a mod b) / of_int b"
    by simp
  have lt: "(of_int (a mod b) / of_int b < (1 / 2 :: rat)) \<longleftrightarrow> 2 * (a mod b) < b"
  proof -
    have "(of_int (a mod b) / of_int b < (1 / 2 :: rat)) \<longleftrightarrow> (of_int (2 * (a mod b)) :: rat) < of_int b"
      using assms by (simp add: field_simps)
    then show ?thesis by (simp only: of_int_less_iff)
  qed
  have gt: "((1 / 2 :: rat) < of_int (a mod b) / of_int b) \<longleftrightarrow> b < 2 * (a mod b)"
  proof -
    have "((1 / 2 :: rat) < of_int (a mod b) / of_int b) \<longleftrightarrow> (of_int b :: rat) < of_int (2 * (a mod b))"
      using assms by (simp add: field_simps)
    then show ?thesis by (simp only: of_int_less_iff)
  qed
  show ?thesis
    unfolding round_even_def Let_def f r lt gt by simp
qed

lemma round_even_numeral_divide [simp]:
  "round_even (numeral a / numeral b) =
     (if 2 * (numeral a mod numeral b) < (numeral b :: int) then numeral a div numeral b
      else if (numeral b :: int) < 2 * (numeral a mod numeral b) then numeral a div numeral b + 1
      else if even (numeral a div numeral b :: int) then numeral a div numeral b
      else numeral a div numeral b + 1)"
  using round_even_divide[of "numeral b" "numeral a"] by simp

lemma round_double_eqI:
  assumes "- 1022 \<le> e" "e \<le> 1023"
    and "e = - 1022 \<or> 2 powi e \<le> \<bar>x\<bar>"
    and "\<bar>x\<bar> < 2 powi (e + 1)"
    and "round_even (x / 2 powi (e - 52)) = m"
    and "y = of_int m * 2 powi (e - 52)"
    and "\<bar>y\<bar> < 2 powi 1024"
  shows "round_double x = Fin y"
proof -
  have "nearest x = y"
    using nearest_eval[of e x] assms by simp
  then show ?thesis using assms(7) by (auto simp: round_double_def)
qed

lemma round_double_0 [simp]: "round_double 0 = Fin 0"
  by (rule round_double_eqI[where e = "- 1022" and m = 0]) simp_all


lemma nearest_idem:
  assumes "0 \<le> x"
  shows "nearest (nearest x) = nearest x"
proof -
  define b where "b = binade x"
  define u :: rat where "u = 2 powi (b - 52)"
  define m where "m = round_even (x / u)"
  define y where "y = nearest x"
  have y: "y = of_int m * u" by (simp add: y_def nearest_def m_def u_def b_def)
  have u0: "0 < u" by (simp add: u_def)
  have y0: "0 \<le> y" unfolding y_def using assms by (rule nearest_nonneg)
  have br: "- 1022 \<le> b" "b \<le> 1023" using binade_range[of x] by (simp_all add: b_def)
  show ?thesis
  proof (cases "b \<noteq> 1023 \<and> y = 2 powi (b + 1)")
    case True
    have bin: "binade y = b + 1"
    proof (rule binade_eqI)
      show "- 1022 \<le> b + 1" using br by simp
      show "b + 1 \<le> 1023" using br True by simp
      show "b + 1 = - 1022 \<or> 2 powi (b + 1) \<le> \<bar>y\<bar>" using True by simp
      have "(2::rat) powi (b + 1) < 2 powi (b + 1 + 1)"
        by (rule power_int_strict_increasing) simp_all
      then show "b + 1 = 1023 \<or> \<bar>y\<bar> < 2 powi (b + 1 + 1)" using True by simp
    qed
    have "(2::rat) powi (b + 1) = 2 powi (b + 1 - 52) * 2 ^ 52"
      using pow2_shift[of "b + 1 - 52" 52] by (simp add: add.commute)
    then have "y / 2 powi (b + 1 - 52) = 2 ^ 52" using True by simp
    then have "nearest y = 2 ^ 52 * 2 powi (b + 1 - 52)"
      by (simp add: nearest_def bin)
    also have "\<dots> = 2 powi (b + 1)"
      using pow2_shift[of "b + 1 - 52" 52] by (simp add: add.commute)
    finally show ?thesis using True by (simp add: y_def)
  next
    case False
    have bin: "binade y = b"
    proof (rule binade_eqI)
      show "- 1022 \<le> b" "b \<le> 1023" by (rule br)+
      show "b = - 1022 \<or> 2 powi b \<le> \<bar>y\<bar>"
        using nearest_lower[OF assms] y0 by (auto simp: b_def y_def)
      show "b = 1023 \<or> \<bar>y\<bar> < 2 powi (b + 1)"
      proof (cases "b = 1023")
        case True
        then show ?thesis by simp
      next
        case ne: False
        then have "y \<le> 2 powi (b + 1)"
          using nearest_upper[OF assms] by (simp add: b_def y_def)
        then show ?thesis using False ne y0 by simp
      qed
    qed
    have "y / u = of_int m" using u0 by (simp add: y)
    then have "nearest y = of_int m * u"
      by (simp add: nearest_def bin u_def)
    then show ?thesis by (simp add: y y_def[symmetric])
  qed
qed

lemma round_double_nonneg:
  assumes "0 \<le> x"
  shows "nonneg_float (round_double x)"
  using nearest_nonneg[OF assms] nearest_idem[OF assms]
  by (auto simp: round_double_def nonneg_float_def dest: order_trans[rotated])

lemma round_double_mono:
  assumes "0 \<le> x" "x \<le> y"
  shows "dle (round_double x) (round_double y)"
proof -
  have n: "nearest x \<le> nearest y" using assms by (rule nearest_mono)
  have x0: "0 \<le> nearest x" using assms(1) by (rule nearest_nonneg)
  have p: "(0::rat) < 2 powi 1024" by simp
  show ?thesis
    using n x0 p by (auto simp: round_double_def dle_def simp del: pow2_pos power_int_numeral)
qed

lemma dle_refl: "nonneg_float a \<Longrightarrow> dle a a"
  by (cases a) (simp_all add: nonneg_float_def dle_def)

lemma dle_trans: "dle a b \<Longrightarrow> dle b c \<Longrightarrow> dle a c"
  by (cases a; cases b; cases c) (simp_all add: dle_def)

lemma dadd_nonneg:
  assumes "nonneg_float a" "nonneg_float b"
  shows "nonneg_float (dadd a b)"
proof (cases a)
  case (Fin x)
  show ?thesis
  proof (cases b)
    case b: (Fin y)
    have "0 \<le> x + y" using assms Fin b by (simp add: nonneg_float_def)
    then show ?thesis unfolding Fin b by (simp add: dadd_def round_double_nonneg)
  qed (use assms Fin in \<open>simp_all add: dadd_def nonneg_float_def\<close>)
qed (use assms in \<open>auto simp: dadd_def nonneg_float_def split: double.splits\<close>)

text \<open>Adding a float that is not negative never lowers a sum.\<close>

lemma dadd_increasing:
  assumes "nonneg_float a" "nonneg_float b"
  shows "dle a (dadd a b)"
proof (cases a)
  case (Fin x)
  show ?thesis
  proof (cases b)
    case b: (Fin y)
    have x: "0 \<le> x" "nearest x = x" and y: "0 \<le> y"
      using assms Fin b by (simp_all add: nonneg_float_def)
    have "dle (round_double x) (round_double (x + y))"
      using x(1) y by (intro round_double_mono) simp_all
    moreover have "round_double x = Fin x \<or> round_double x = PInf"
      using x by (auto simp: round_double_def)
    moreover have "round_double (x + y) \<noteq> NaN" "round_double (x + y) \<noteq> NInf \<or> True"
      by (auto simp: round_double_def)
    ultimately show ?thesis unfolding Fin b
      by (cases "round_double (x + y)") (auto simp: dadd_def dle_def)
  qed (use assms Fin in \<open>simp_all add: dadd_def nonneg_float_def dle_def\<close>)
qed (use assms in \<open>auto simp: dadd_def nonneg_float_def dle_def split: double.splits\<close>)

lemma dadd_mono:
  assumes "nonneg_float a" "nonneg_float b" "nonneg_float a'" "nonneg_float b'"
    and "dle a a'" "dle b b'"
  shows "dle (dadd a b) (dadd a' b')"
proof (cases "a' = PInf \<or> b' = PInf")
  case True
  have "dadd a' b' = PInf"
    using True assms(3,4) by (auto simp: dadd_def nonneg_float_def split: double.splits)
  moreover have "nonneg_float (dadd a b)" using assms(1,2) by (rule dadd_nonneg)
  ultimately show ?thesis by (cases "dadd a b") (simp_all add: dle_def nonneg_float_def)
next
  case False
  then obtain x' y' where a': "a' = Fin x'" and b': "b' = Fin y'"
    using assms(3,4) by (cases a'; cases b') (simp_all add: nonneg_float_def)
  obtain x where a: "a = Fin x" using assms(1,5) a' by (cases a) (simp_all add: dle_def nonneg_float_def)
  obtain y where b: "b = Fin y" using assms(2,6) b' by (cases b) (simp_all add: dle_def nonneg_float_def)
  have "0 \<le> x + y" "x + y \<le> x' + y'"
    using assms a b a' b' by (simp_all add: nonneg_float_def dle_def)
  then show ?thesis unfolding a b a' b' by (simp add: dadd_def round_double_mono)
qed

text \<open>Multiplying by a positive weight.\<close>

lemma dmul_weight_nonneg:
  assumes "0 \<le> x" "0 \<le> w"
  shows "nonneg_float (dmul (Fin x) (Fin w))"
  using assms by (simp add: dmul_def round_double_nonneg)

lemma dmul_weight_mono:
  assumes "0 \<le> x" "x \<le> y" "0 \<le> w"
  shows "dle (dmul (Fin x) (Fin w)) (dmul (Fin y) (Fin w))"
  using assms by (simp add: dmul_def round_double_mono mult_right_mono)

section \<open>Floats: the rounding at the numbers of the examples\<close>

text \<open>
  The value of \<open>round_double\<close> at each number the examples below meet, from the binade
  and the 53-bit significand of the result.
\<close>

lemma rounded_1 [simp]:
  "round_double (1080863910568919 / 36028797018963968) = Fin (1080863910568919 / 36028797018963968)"
  by (rule round_double_eqI[where e = "- 6" and m = "8646911284551352"]) simp_all

lemma rounded_2 [simp]:
  "round_double (19471113219505603967277331424215 / 649037107316853453566312041152512) = Fin (1080863910568919 / 36028797018963968)"
  by (rule round_double_eqI[where e = "- 6" and m = "8646911284551352"]) simp_all

lemma rounded_3 [simp]:
  "round_double (5404319552844595 / 144115188075855872) = Fin (5404319552844595 / 144115188075855872)"
  by (rule round_double_eqI[where e = "- 5" and m = "5404319552844595"]) simp_all

lemma rounded_4 [simp]:
  "round_double (3602879701896397 / 72057594037927936) = Fin (3602879701896397 / 72057594037927936)"
  by (rule round_double_eqI[where e = "- 5" and m = "7205759403792794"]) simp_all

lemma rounded_5 [simp]:
  "round_double (1 / 16) = Fin (1 / 16)"
  by (rule round_double_eqI[where e = "- 4" and m = "4503599627370496"]) simp_all

lemma rounded_6 [simp]:
  "round_double (29206669829258403248756220714025 / 324518553658426726783156020576256) = Fin (3242591731706757 / 36028797018963968)"
  by (rule round_double_eqI[where e = "- 4" and m = "6485183463413514"]) simp_all

lemma rounded_7 [simp]:
  "round_double (3242591731706757 / 36028797018963968) = Fin (3242591731706757 / 36028797018963968)"
  by (rule round_double_eqI[where e = "- 4" and m = "6485183463413514"]) simp_all

lemma rounded_8 [simp]:
  "round_double (900719925474099 / 9007199254740992) = Fin (900719925474099 / 9007199254740992)"
  by (rule round_double_eqI[where e = "- 4" and m = "7205759403792792"]) simp_all

lemma rounded_9 [simp]:
  "round_double (1 / 10) = Fin (3602879701896397 / 36028797018963968)"
  by (rule round_double_eqI[where e = "- 4" and m = "7205759403792794"]) simp_all

lemma rounded_10 [simp]:
  "round_double (3602879701896397 / 36028797018963968) = Fin (3602879701896397 / 36028797018963968)"
  by (rule round_double_eqI[where e = "- 4" and m = "7205759403792794"]) simp_all

lemma rounded_11 [simp]:
  "round_double (5404319552844595 / 36028797018963968) = Fin (5404319552844595 / 36028797018963968)"
  by (rule round_double_eqI[where e = "- 3" and m = "5404319552844595"]) simp_all

lemma rounded_12 [simp]:
  "round_double (3 / 20) = Fin (5404319552844595 / 36028797018963968)"
  by (rule round_double_eqI[where e = "- 3" and m = "5404319552844595"]) simp_all

lemma rounded_13 [simp]:
  "round_double (1 / 5) = Fin (3602879701896397 / 18014398509481984)"
  by (rule round_double_eqI[where e = "- 3" and m = "7205759403792794"]) simp_all

lemma rounded_14 [simp]:
  "round_double (3602879701896397 / 18014398509481984) = Fin (3602879701896397 / 18014398509481984)"
  by (rule round_double_eqI[where e = "- 3" and m = "7205759403792794"]) simp_all

lemma rounded_15 [simp]:
  "round_double (8106479329266893 / 36028797018963968) = Fin (8106479329266893 / 36028797018963968)"
  by (rule round_double_eqI[where e = "- 3" and m = "8106479329266893"]) simp_all

lemma rounded_16 [simp]:
  "round_double (8286623314361713 / 36028797018963968) = Fin (8286623314361713 / 36028797018963968)"
  by (rule round_double_eqI[where e = "- 3" and m = "8286623314361713"]) simp_all

lemma rounded_17 [simp]:
  "round_double (1 / 4) = Fin (1 / 4)"
  by (rule round_double_eqI[where e = "- 2" and m = "4503599627370496"]) simp_all

lemma rounded_18 [simp]:
  "round_double (5404319552844595 / 18014398509481984) = Fin (5404319552844595 / 18014398509481984)"
  by (rule round_double_eqI[where e = "- 2" and m = "5404319552844595"]) simp_all

lemma rounded_19 [simp]:
  "round_double (3 / 10) = Fin (5404319552844595 / 18014398509481984)"
  by (rule round_double_eqI[where e = "- 2" and m = "5404319552844595"]) simp_all

lemma rounded_20 [simp]:
  "round_double (10808639105689191 / 36028797018963968) = Fin (1351079888211149 / 4503599627370496)"
  by (rule round_double_eqI[where e = "- 2" and m = "5404319552844596"]) simp_all

lemma rounded_21 [simp]:
  "round_double (6530219459687219 / 18014398509481984) = Fin (6530219459687219 / 18014398509481984)"
  by (rule round_double_eqI[where e = "- 2" and m = "6530219459687219"]) simp_all

lemma rounded_22 [simp]:
  "round_double (7205759403792793 / 18014398509481984) = Fin (7205759403792793 / 18014398509481984)"
  by (rule round_double_eqI[where e = "- 2" and m = "7205759403792793"]) simp_all

lemma rounded_23 [simp]:
  "round_double (57646075230342347 / 144115188075855872) = Fin (7205759403792793 / 18014398509481984)"
  by (rule round_double_eqI[where e = "- 2" and m = "7205759403792793"]) simp_all

lemma rounded_24 [simp]:
  "round_double (2 / 5) = Fin (3602879701896397 / 9007199254740992)"
  by (rule round_double_eqI[where e = "- 2" and m = "7205759403792794"]) simp_all

lemma rounded_25 [simp]:
  "round_double (16212958658533787 / 36028797018963968) = Fin (4053239664633447 / 9007199254740992)"
  by (rule round_double_eqI[where e = "- 2" and m = "8106479329266894"]) simp_all

lemma rounded_26 [simp]:
  "round_double (17113678584007885 / 36028797018963968) = Fin (4278419646001971 / 9007199254740992)"
  by (rule round_double_eqI[where e = "- 2" and m = "8556839292003942"]) simp_all

lemma rounded_27 [simp]:
  "round_double (5404319552844595 / 9007199254740992) = Fin (5404319552844595 / 9007199254740992)"
  by (rule round_double_eqI[where e = "- 1" and m = "5404319552844595"]) simp_all

lemma rounded_28 [simp]:
  "round_double (3 / 5) = Fin (5404319552844595 / 9007199254740992)"
  by (rule round_double_eqI[where e = "- 1" and m = "5404319552844595"]) simp_all

lemma rounded_29 [simp]:
  "round_double (10808639105689191 / 18014398509481984) = Fin (1351079888211149 / 2251799813685248)"
  by (rule round_double_eqI[where e = "- 1" and m = "5404319552844596"]) simp_all

lemma rounded_30 [simp]:
  "round_double (24859869943085141 / 36028797018963968) = Fin (6214967485771285 / 9007199254740992)"
  by (rule round_double_eqI[where e = "- 1" and m = "6214967485771285"]) simp_all

lemma rounded_31 [simp]:
  "round_double (7 / 10) = Fin (3152519739159347 / 4503599627370496)"
  by (rule round_double_eqI[where e = "- 1" and m = "6305039478318694"]) simp_all

lemma rounded_32 [simp]:
  "round_double (28823037615171173 / 36028797018963968) = Fin (7205759403792793 / 9007199254740992)"
  by (rule round_double_eqI[where e = "- 1" and m = "7205759403792793"]) simp_all

lemma rounded_33 [simp]:
  "round_double (4 / 5) = Fin (3602879701896397 / 4503599627370496)"
  by (rule round_double_eqI[where e = "- 1" and m = "7205759403792794"]) simp_all

lemma rounded_34 [simp]:
  "round_double (32425917317067571 / 36028797018963968) = Fin (8106479329266893 / 9007199254740992)"
  by (rule round_double_eqI[where e = "- 1" and m = "8106479329266893"]) simp_all

lemma rounded_35 [simp]:
  "round_double (9 / 10) = Fin (8106479329266893 / 9007199254740992)"
  by (rule round_double_eqI[where e = "- 1" and m = "8106479329266893"]) simp_all

lemma rounded_36 [simp]:
  "round_double (1) = Fin (1)"
  by (rule round_double_eqI[where e = "0" and m = "4503599627370496"]) simp_all

lemma rounded_37 [simp]:
  "round_double (9907919180215091 / 9007199254740992) = Fin (2476979795053773 / 2251799813685248)"
  by (rule round_double_eqI[where e = "0" and m = "4953959590107546"]) simp_all

lemma rounded_38 [simp]:
  "round_double (11 / 10) = Fin (2476979795053773 / 2251799813685248)"
  by (rule round_double_eqI[where e = "0" and m = "4953959590107546"]) simp_all

lemma rounded_39 [simp]:
  "round_double (7656119366529843 / 4503599627370496) = Fin (7656119366529843 / 4503599627370496)"
  by (rule round_double_eqI[where e = "0" and m = "7656119366529843"]) simp_all

lemma rounded_40 [simp]:
  "round_double (17 / 10) = Fin (7656119366529843 / 4503599627370496)"
  by (rule round_double_eqI[where e = "0" and m = "7656119366529843"]) simp_all

lemma rounded_41 [simp]:
  "round_double (15312238733059687 / 9007199254740992) = Fin (1914029841632461 / 1125899906842624)"
  by (rule round_double_eqI[where e = "0" and m = "7656119366529844"]) simp_all

lemma rounded_42 [simp]:
  "round_double (2) = Fin (2)"
  by (rule round_double_eqI[where e = "1" and m = "4503599627370496"]) simp_all

lemma rounded_43 [simp]:
  "round_double (3) = Fin (3)"
  by (rule round_double_eqI[where e = "1" and m = "6755399441055744"]) simp_all

lemma rounded_44 [simp]:
  "round_double (4) = Fin (4)"
  by (rule round_double_eqI[where e = "2" and m = "4503599627370496"]) simp_all

lemma rounded_45 [simp]:
  "round_double (5) = Fin (5)"
  by (rule round_double_eqI[where e = "2" and m = "5629499534213120"]) simp_all

lemma rounded_46 [simp]:
  "round_double (98) = Fin (98)"
  by (rule round_double_eqI[where e = "6" and m = "6896136929411072"]) simp_all

section \<open>PriorityManager: properties\<close>

lemma round_double_not_NaN [simp]: "round_double x \<noteq> NaN"
  by (simp add: round_double_def)

lemma float_of_int_ok:
  "float_of_int i \<noteq> Inl OverflowError \<Longrightarrow> float_of_int i = Inr (round_double (of_int i))"
  by (cases "round_double (of_int i)") (simp_all add: float_of_int_def)

lemma float_of_int_0 [simp]: "float_of_int 0 = Inr (Fin 0)"
  by (simp add: float_of_int_def)

lemma float_of_int_small:
  assumes "0 < i" "i \<le> 5"
  shows "float_of_int i = Inr (Fin (of_int i))" "round_double (of_int i) = Fin (of_int i)"
proof -
  consider "i = 1" | "i = 2" | "i = 3" | "i = 4" | "i = 5" using assms by linarith
  then show "round_double (of_int i) = Fin (of_int i)" by cases simp_all
  then show "float_of_int i = Inr (Fin (of_int i))" by (simp add: float_of_int_def)
qed

lemma py_mul_number:
  "is_number (t k) \<Longrightarrow> py_mul (dict_get t k (PyInt 0)) w = Inr (dmul (float_of t k) w)"
  by (cases "t k" rule: is_number.cases)
     (simp_all add: dict_get_def float_of_def float_of_int_ok)

lemma py_ge_number:
  "is_number (t k) \<Longrightarrow> py_ge (dict_get t k (PyInt 0)) c = Inr (dle c (num_of t k))"
  by (cases "t k" rule: is_number.cases) (simp_all add: dict_get_def num_of_def)

lemma rule_urgent_deadline_number:
  "is_number (t ''deadline'') \<Longrightarrow> rule_urgent_deadline days_until t = Inr (Fin 0)"
  by (cases "t ''deadline''" rule: is_number.cases)
     (simp_all add: rule_urgent_deadline_def dict_get_def)

lemma rule_blocked_tasks_number:
  assumes "is_numeric (t ''blocking_count'')"
  shows "rule_blocked_tasks t = Inr (blocking_bonus t)"
proof (cases "t ''blocking_count''" rule: is_numeric.cases)
  case 1
  then show ?thesis
    by (simp add: rule_blocked_tasks_def blocking_bonus_def dict_get_def num_of_def dlt_def)
next
  case (2 i)
  show ?thesis
  proof (cases "0 < i \<and> i \<le> 5")
    case True
    then show ?thesis
      using 2 float_of_int_small[of i]
      by (simp add: rule_blocked_tasks_def blocking_bonus_def dict_get_def num_of_def
          float_of_def dlt_def)
  next
    case False
    then show ?thesis
      using 2 float_of_int_small[of 5]
      by (auto simp: rule_blocked_tasks_def blocking_bonus_def dict_get_def num_of_def
          float_of_def dlt_def)
  qed
next
  case (3 x)
  then show ?thesis
    using float_of_int_small[of 5]
    by (simp add: rule_blocked_tasks_def blocking_bonus_def dict_get_def num_of_def
        float_of_def)
qed (use assms in simp_all)

lemma add_bonus_zero [simp]: "add_bonus acc (Fin 0) = acc"
  by (simp add: add_bonus_def)

text \<open>The score of a numeric task in closed form.\<close>

lemma priority_score_numeric:
  assumes "numeric_task t"
  shows "priority_score days_until t = Inr (code_score t)"
proof -
  from assms have n: "is_number (t ''deadline'')" "is_number (t ''importance'')"
    "is_number (t ''effort'')" "is_number (t ''dependencies'')"
    "is_number (t ''user_preference'')" "is_numeric (t ''blocking_count'')"
    by (simp_all add: numeric_task_def factor_keys_def)
  have w: "weigh_factors t factor_weights (Fin 0) = Inr (weighted_sum t)"
    unfolding factor_weights_def weighted_sum_def
    by (simp only: weigh_factors.simps sum.case
        py_mul_number[of t "''deadline''", OF n(1)]
        py_mul_number[of t "''importance''", OF n(2)]
        py_mul_number[of t "''effort''", OF n(3)]
        py_mul_number[of t "''dependencies''", OF n(4)]
        py_mul_number[of t "''user_preference''", OF n(5)])
  have r1: "rule_urgent_deadline days_until t = Inr (Fin 0)"
    using n(1) by (rule rule_urgent_deadline_number)
  have r2: "rule_high_importance t = Inr (importance_bonus t)"
    unfolding rule_high_importance_def importance_bonus_def
      py_ge_number[of t "''importance''", OF n(2)]
    by (simp only: sum.case if_distrib[of Inr])
  have r3: "rule_blocked_tasks t = Inr (blocking_bonus t)"
    using n(6) by (rule rule_blocked_tasks_number)
  have r4: "rule_user_preference t = Inr (preference_bonus t)"
    unfolding rule_user_preference_def preference_bonus_def
    by (rule py_mul_number[of t "''user_preference''", OF n(5)])
  show ?thesis
    unfolding priority_score_def priority_rules_def w code_score_def
    by (simp only: sum.case apply_rules.simps r1 r2 r3 r4 add_bonus_def[symmetric]
        add_bonus_zero)
qed

text \<open>
  A string deadline, the only kind \<open>_rule_urgent_deadline\<close> looks at, never reaches that
  rule: the weighting loop multiplies it by a float first, which raises, and the
  handler answers MEDIUM.
\<close>

lemma calculate_priority_string_deadline:
  "t ''deadline'' = Some (Str s) \<Longrightarrow> calculate_priority days_until t = MEDIUM"
  by (simp add: calculate_priority_def priority_score_def factor_weights_def dict_get_def)

text \<open>
  An int too large for a float raises OverflowError in the weighting loop, and the
  handler answers MEDIUM.
\<close>

lemma calculate_priority_overflow:
  "t ''deadline'' = Some (PyInt i) \<Longrightarrow> float_of_int i = Inl OverflowError \<Longrightarrow>
     calculate_priority days_until t = MEDIUM"
  by (simp add: calculate_priority_def priority_score_def factor_weights_def dict_get_def)

lemmas priority_eval =
  calculate_priority_def priority_score_def factor_weights_def priority_rules_def
  dict_get_def rule_urgent_deadline_def rule_high_importance_def rule_blocked_tasks_def
  rule_user_preference_def score_to_level_def float_of_int_def dadd_def dmul_def dle_def
  dlt_def

lemmas score_eval =
  code_score_def weighted_sum_def add_bonus_def importance_bonus_def blocking_bonus_def
  preference_bonus_def num_of_def float_of_def dadd_def dmul_def dle_def dlt_def

text \<open>
  C4, as the specification states it, fails in two places. The code has a fourth rule,
  \<open>_rule_user_preference\<close>, that adds 0.15 times the user preference: for the input with
  user preference 1 and every other attribute 0 the specification's score is 0.10
  (level NONE), the code's score is 0.25 (level LOW). And the code has no bonus for an
  urgency of 1: \<open>_rule_urgent_deadline\<close> only looks at string deadlines, so for the
  input with urgency 1 and every other attribute 0 the specification's score is 0.60
  (level HIGH), the code's score is the float 0.3 (level LOW).
\<close>

theorem calculate_formula_counterexample:
  "priority_score (\<lambda>s. None)
     (input_task \<lparr>urgency = 0, importance = 0, effort = 0, blockingCount = 0,
                  userPreference = 1\<rparr>)
     = Inr (Fin (1 / 4))
   \<and> spec_score \<lparr>urgency = 0, importance = 0, effort = 0, blockingCount = 0,
                  userPreference = 1\<rparr> = 1 / 10
   \<and> calculate_priority (\<lambda>s. None)
     (input_task \<lparr>urgency = 0, importance = 0, effort = 0, blockingCount = 0,
                  userPreference = 1\<rparr>)
     = LOW
   \<and> spec_calculate \<lparr>urgency = 0, importance = 0, effort = 0, blockingCount = 0,
                      userPreference = 1\<rparr> = NONE
   \<and> priority_score (\<lambda>s. None)
     (input_task \<lparr>urgency = 1, importance = 0, effort = 0, blockingCount = 0,
                  userPreference = 0\<rparr>)
     = Inr (Fin (5404319552844595 / 18014398509481984))
   \<and> spec_score \<lparr>urgency = 1, importance = 0, effort = 0, blockingCount = 0,
                  userPreference = 0\<rparr> = 6 / 10
   \<and> calculate_priority (\<lambda>s. None)
     (input_task \<lparr>urgency = 1, importance = 0, effort = 0, blockingCount = 0,
                  userPreference = 0\<rparr>)
     = LOW
   \<and> spec_calculate \<lparr>urgency = 1, importance = 0, effort = 0, blockingCount = 0,
                      userPreference = 0\<rparr> = HIGH"
  by (simp add: priority_eval input_task_def spec_calculate_def spec_score_def spec_level_def)

text \<open>
  C4, amended. For a numeric task (every attribute absent, read as 0, or a number
  that converts to a float), \<open>calculate_priority\<close> computes in float arithmetic, each
  operation rounded, from left to right
  score = 0 + deadline * 0.3 + importance * 0.25 + effort * 0.2 + dependencies * 0.15
  + user\_preference * 0.1, then adds 0.25 if importance is at least 0.8, adds
  0.2 * min(blocking\_count, 5) if blocking\_count is positive, and adds
  user\_preference * 0.15 (a fourth rule), the last two when they are not zero; a
  numeric deadline earns no bonus. It maps the sum to a level by the thresholds
  0.8 CRITICAL, 0.6 HIGH, 0.4 MEDIUM, 0.2 LOW, else NONE (the floats of these literals).
\<close>

theorem calculate_priority_formula:
  assumes "numeric_task t"
  shows "priority_score days_until t = Inr (code_score t)
      \<and> calculate_priority days_until t =
          (if dle (round_double (8 / 10)) (code_score t) then CRITICAL
           else if dle (round_double (6 / 10)) (code_score t) then HIGH
           else if dle (round_double (4 / 10)) (code_score t) then MEDIUM
           else if dle (round_double (2 / 10)) (code_score t) then LOW
           else NONE)"
  unfolding calculate_priority_def priority_score_numeric[OF assms, of days_until]
  by (simp only: sum.case score_to_level_def simp_thms)

theorem calculate_priority_formula_witness:
  "numeric_task [''deadline'' \<mapsto> PyInt 1, ''importance'' \<mapsto> PyFloat (Fin (1 / 4)),
                 ''dependencies'' \<mapsto> PyFloat (Fin (1 / 4))]
   \<and> priority_score (\<lambda>s. None)
        [''deadline'' \<mapsto> PyInt 1, ''importance'' \<mapsto> PyFloat (Fin (1 / 4)),
         ''dependencies'' \<mapsto> PyFloat (Fin (1 / 4))]
       = Inr (Fin (7205759403792793 / 18014398509481984))
   \<and> calculate_priority (\<lambda>s. None)
        [''deadline'' \<mapsto> PyInt 1, ''importance'' \<mapsto> PyFloat (Fin (1 / 4)),
         ''dependencies'' \<mapsto> PyFloat (Fin (1 / 4))] = LOW"
proof -
  let ?t = "[''deadline'' \<mapsto> PyInt 1, ''importance'' \<mapsto> PyFloat (Fin (1 / 4)),
             ''dependencies'' \<mapsto> PyFloat (Fin (1 / 4))] :: task"
  have h: "numeric_task ?t"
    by (simp add: numeric_task_def factor_keys_def float_of_int_def)
  have v: "code_score ?t = Fin (7205759403792793 / 18014398509481984)"
    by (simp add: score_eval)
  show ?thesis
    using h calculate_priority_formula[OF h, of "\<lambda>s. None"] unfolding v
    by (simp add: dle_def)
qed

text \<open>Monotonicity, within the specification's ranges.\<close>

lemma nearest_0 [simp]: "nearest 0 = 0"
  by (simp add: nearest_def)

lemma float_ordered_zero: "float_ordered (Fin 0) (Fin 0)"
  by (simp add: float_ordered_def nonneg_float_def dle_def)

lemma float_ordered_refl: "nonneg_float a \<Longrightarrow> float_ordered a a"
  by (simp add: float_ordered_def dle_refl)

lemma float_ordered_from_zero: "nonneg_float a \<Longrightarrow> float_ordered (Fin 0) a"
  by (cases a) (simp_all add: float_ordered_def nonneg_float_def dle_def)

lemma float_ordered_dadd:
  "float_ordered a a' \<Longrightarrow> float_ordered b b' \<Longrightarrow> float_ordered (dadd a b) (dadd a' b')"
  by (simp add: float_ordered_def dadd_nonneg dadd_mono)

lemma float_ordered_weight:
  assumes "0 \<le> x" "x \<le> y" "0 \<le> w"
  shows "float_ordered (dmul (Fin x) (Fin w)) (dmul (Fin y) (Fin w))"
proof -
  have "0 \<le> y" using assms by simp
  then show ?thesis
    using assms by (simp add: float_ordered_def dmul_weight_nonneg dmul_weight_mono)
qed

lemma float_ordered_add_bonus:
  assumes "float_ordered acc acc'" "float_ordered b b'"
  shows "float_ordered (add_bonus acc b) (add_bonus acc' b')"
proof (cases "b = Fin 0")
  case True
  show ?thesis
  proof (cases "b' = Fin 0")
    case b': True
    then show ?thesis using True assms(1) by simp
  next
    case False
    have "dle acc' (dadd acc' b')"
      using assms by (intro dadd_increasing) (simp_all add: float_ordered_def)
    then have "dle acc (dadd acc' b')"
      using assms(1) dle_trans[of acc acc'] by (simp add: float_ordered_def)
    then show ?thesis
      using True False assms by (simp add: add_bonus_def float_ordered_def dadd_nonneg)
  qed
next
  case False
  have "b' \<noteq> Fin 0"
    using False assms(2)
    by (cases b) (auto simp: float_ordered_def nonneg_float_def dle_def)
  then show ?thesis
    using False assms by (simp add: add_bonus_def float_ordered_dadd)
qed

lemma in_unit_values:
  assumes "in_unit v"
  shows "float_value v = Fin (unit_value v)" "exact_value v = Fin (unit_value v)"
    "0 \<le> unit_value v" "is_number v"
  using assms by (cases v rule: in_unit.cases; auto simp: float_of_int_def)+

lemma float_ordered_term:
  assumes "in_unit v" "in_unit v'" "unit_value v \<le> unit_value v'" "0 \<le> w"
  shows "float_ordered (dmul (float_value v) (Fin w)) (dmul (float_value v') (Fin w))"
  unfolding in_unit_values(1)[OF assms(1)] in_unit_values(1)[OF assms(2)]
  using assms(3,4) in_unit_values(3)[OF assms(1)] by (intro float_ordered_weight)

lemma blocking_bonus_count:
  assumes "is_count (t ''blocking_count'')"
  shows "\<exists>n. 0 \<le> n \<and> unit_value (t ''blocking_count'') = of_int n
     \<and> blocking_bonus t =
         (if 0 < n then dmul (Fin (of_int (min n 5))) (round_double (2 / 10)) else Fin 0)"
proof (cases "t ''blocking_count''" rule: is_count.cases)
  case 1
  then show ?thesis
    by (intro exI[of _ 0]) (simp add: blocking_bonus_def num_of_def dlt_def)
next
  case (2 i)
  show ?thesis
    using 2 assms
    by (intro exI[of _ i])
       (auto simp: blocking_bonus_def num_of_def float_of_def dlt_def float_of_int_small(2)
          min_def)
qed (use assms in simp_all)

lemma float_ordered_blocking:
  assumes "is_count (t ''blocking_count'')" "is_count (t' ''blocking_count'')"
    and "unit_value (t ''blocking_count'') \<le> unit_value (t' ''blocking_count'')"
  shows "float_ordered (blocking_bonus t) (blocking_bonus t')"
proof -
  obtain n where n: "0 \<le> n" "unit_value (t ''blocking_count'') = of_int n"
    "blocking_bonus t =
       (if 0 < n then dmul (Fin (of_int (min n 5))) (round_double (2 / 10)) else Fin 0)"
    using blocking_bonus_count[of t, OF assms(1)] by blast
  obtain n' where n': "0 \<le> n'" "unit_value (t' ''blocking_count'') = of_int n'"
    "blocking_bonus t' =
       (if 0 < n' then dmul (Fin (of_int (min n' 5))) (round_double (2 / 10)) else Fin 0)"
    using blocking_bonus_count[of t', OF assms(2)] by blast
  have le: "n \<le> n'" using assms(3) unfolding n(2) n'(2) by simp
  have w: "round_double (2 / 10) = Fin (3602879701896397 / 18014398509481984)" by simp
  show ?thesis
  proof (cases "0 < n")
    case True
    then have "0 < n'" using le by simp
    moreover have "(0::rat) \<le> of_int (min n 5)" "(of_int (min n 5) :: rat) \<le> of_int (min n' 5)"
      using True le by simp_all
    ultimately show ?thesis
      unfolding n(3) n'(3) w using True by (simp add: float_ordered_weight del: of_int_min)
  next
    case False
    have "nonneg_float (dmul (Fin (of_int (min n' 5))) (Fin (3602879701896397 / 18014398509481984)))"
      using n'(1) by (intro dmul_weight_nonneg) simp_all
    moreover have "nonneg_float (Fin 0)" by (simp add: nonneg_float_def)
    ultimately have "nonneg_float (blocking_bonus t')"
      unfolding n'(3) w by (simp del: of_int_min)
    then show ?thesis
      unfolding n(3) using False by (simp add: float_ordered_from_zero)
  qed
qed

lemma float_ordered_importance:
  assumes "in_unit (t ''importance'')" "in_unit (t' ''importance'')"
    and "unit_value (t ''importance'') \<le> unit_value (t' ''importance'')"
  shows "float_ordered (importance_bonus t) (importance_bonus t')"
proof -
  have c: "nonneg_float (round_double (25 / 100))" by (rule round_double_nonneg) simp
  have up: "dle (round_double (8 / 10)) (Fin (unit_value (t' ''importance'')))"
    if "dle (round_double (8 / 10)) (Fin (unit_value (t ''importance'')))"
    using that assms(3) by (simp add: dle_def)
  show ?thesis
    unfolding importance_bonus_def num_of_def
      in_unit_values(2)[OF assms(1)] in_unit_values(2)[OF assms(2)]
    using c up
    by (auto simp: float_ordered_zero float_ordered_refl float_ordered_from_zero)
qed

lemma code_score_mono:
  assumes "in_range t" "in_range t'" "task_le t t'"
  shows "float_ordered (code_score t) (code_score t')"
proof -
  have u: "in_unit (t ''deadline'')" "in_unit (t ''importance'')" "in_unit (t ''effort'')"
    "in_unit (t ''dependencies'')" "in_unit (t ''user_preference'')"
    "is_count (t ''blocking_count'')"
    using assms(1) by (simp_all add: in_range_def)
  have u': "in_unit (t' ''deadline'')" "in_unit (t' ''importance'')" "in_unit (t' ''effort'')"
    "in_unit (t' ''dependencies'')" "in_unit (t' ''user_preference'')"
    "is_count (t' ''blocking_count'')"
    using assms(2) by (simp_all add: in_range_def)
  have le: "unit_value (t ''deadline'') \<le> unit_value (t' ''deadline'')"
    "unit_value (t ''importance'') \<le> unit_value (t' ''importance'')"
    "unit_value (t ''effort'') \<le> unit_value (t' ''effort'')"
    "unit_value (t ''dependencies'') \<le> unit_value (t' ''dependencies'')"
    "unit_value (t ''user_preference'') \<le> unit_value (t' ''user_preference'')"
    "unit_value (t ''blocking_count'') \<le> unit_value (t' ''blocking_count'')"
    using assms(3) by (simp_all add: task_le_def priority_keys_def)
  have t1: "float_ordered (dmul (float_of t ''deadline'') (round_double (3 / 10)))
      (dmul (float_of t' ''deadline'') (round_double (3 / 10)))"
    using float_ordered_term[OF u(1) u'(1) le(1)] by (simp add: float_of_def)
  have t2: "float_ordered (dmul (float_of t ''importance'') (round_double (25 / 100)))
      (dmul (float_of t' ''importance'') (round_double (25 / 100)))"
    using float_ordered_term[OF u(2) u'(2) le(2)] by (simp add: float_of_def)
  have t3: "float_ordered (dmul (float_of t ''effort'') (round_double (2 / 10)))
      (dmul (float_of t' ''effort'') (round_double (2 / 10)))"
    using float_ordered_term[OF u(3) u'(3) le(3)] by (simp add: float_of_def)
  have t4: "float_ordered (dmul (float_of t ''dependencies'') (round_double (15 / 100)))
      (dmul (float_of t' ''dependencies'') (round_double (15 / 100)))"
    using float_ordered_term[OF u(4) u'(4) le(4)] by (simp add: float_of_def)
  have t5: "float_ordered (dmul (float_of t ''user_preference'') (round_double (1 / 10)))
      (dmul (float_of t' ''user_preference'') (round_double (1 / 10)))"
    using float_ordered_term[OF u(5) u'(5) le(5)] by (simp add: float_of_def)
  have ws: "float_ordered (weighted_sum t) (weighted_sum t')"
    unfolding weighted_sum_def
    by (intro float_ordered_dadd float_ordered_zero t1 t2 t3 t4 t5)
  have b1: "float_ordered (importance_bonus t) (importance_bonus t')"
    using u(2) u'(2) le(2) by (rule float_ordered_importance)
  have b2: "float_ordered (blocking_bonus t) (blocking_bonus t')"
    using u(6) u'(6) le(6) by (rule float_ordered_blocking)
  have b3: "float_ordered (preference_bonus t) (preference_bonus t')"
    unfolding preference_bonus_def
    using float_ordered_term[OF u(5) u'(5) le(5)] by (simp add: float_of_def)
  show ?thesis
    unfolding code_score_def by (intro float_ordered_add_bonus ws b1 b2 b3)
qed

lemma in_range_numeric: "in_range t \<Longrightarrow> numeric_task t"
  by (auto simp: in_range_def numeric_task_def factor_keys_def in_unit_values(4)
      elim: is_count.elims)

lemma score_to_level_mono:
  assumes "float_ordered a b"
  shows "level_value (score_to_level a) \<le> level_value (score_to_level b)"
proof -
  have "dle c b" if "dle c a" for c
    using that assms dle_trans[of c a b] by (simp add: float_ordered_def)
  then show ?thesis by (auto simp: score_to_level_def)
qed

text \<open>
  C5. For two tasks within the specification's ranges (the weighted factors from 0 to
  1, the blocking count an int that is not negative) of which the second has, under
  every key, a value at least as large, the score of the second is at least the score
  of the first, and so is its level. Two inputs that differ in one of importance,
  urgency (the key \<open>deadline\<close>), blockingCount (the keys \<open>blocking_count\<close> and
  \<open>dependencies\<close>) or userPreference, the second with the larger value, are such tasks.
\<close>

theorem calculate_monotone:
  assumes "in_range t" and "in_range t'" and "task_le t t'"
  shows "\<exists>s s'. priority_score days_until t = Inr s
           \<and> priority_score days_until t' = Inr s'
           \<and> dle s s'
           \<and> level_value (calculate_priority days_until t)
               \<le> level_value (calculate_priority days_until t')"
proof -
  have o: "float_ordered (code_score t) (code_score t')"
    using assms by (rule code_score_mono)
  note s = priority_score_numeric[OF in_range_numeric[OF assms(1)], of days_until]
  note s' = priority_score_numeric[OF in_range_numeric[OF assms(2)], of days_until]
  show ?thesis
    using o score_to_level_mono[OF o]
    by (simp add: s s' calculate_priority_def float_ordered_def)
qed

theorem calculate_monotone_witness:
  "in_range (input_task \<lparr>urgency = 0, importance = 0, effort = 0, blockingCount = 1,
                          userPreference = 0\<rparr>)
   \<and> in_range (input_task \<lparr>urgency = 0, importance = 0, effort = 0, blockingCount = 3,
                            userPreference = 0\<rparr>)
   \<and> task_le (input_task \<lparr>urgency = 0, importance = 0, effort = 0, blockingCount = 1,
                           userPreference = 0\<rparr>)
        (input_task \<lparr>urgency = 0, importance = 0, effort = 0, blockingCount = 3,
                     userPreference = 0\<rparr>)
   \<and> level_value (calculate_priority (\<lambda>s. None)
         (input_task \<lparr>urgency = 0, importance = 0, effort = 0, blockingCount = 1,
                      userPreference = 0\<rparr>))
       \<le> level_value (calculate_priority (\<lambda>s. None)
         (input_task \<lparr>urgency = 0, importance = 0, effort = 0, blockingCount = 3,
                      userPreference = 0\<rparr>))
   \<and> calculate_priority (\<lambda>s. None)
         (input_task \<lparr>urgency = 0, importance = 0, effort = 0, blockingCount = 1,
                      userPreference = 0\<rparr>) = LOW
   \<and> calculate_priority (\<lambda>s. None)
         (input_task \<lparr>urgency = 0, importance = 0, effort = 0, blockingCount = 3,
                      userPreference = 0\<rparr>) = HIGH"
proof -
  let ?t = "input_task \<lparr>urgency = 0, importance = 0, effort = 0, blockingCount = 1,
                          userPreference = 0\<rparr>"
  let ?t' = "input_task \<lparr>urgency = 0, importance = 0, effort = 0, blockingCount = 3,
                           userPreference = 0\<rparr>"
  have h1: "in_range ?t" by (simp add: in_range_def input_task_def)
  have h2: "in_range ?t'" by (simp add: in_range_def input_task_def)
  have h3: "task_le ?t ?t'" by (simp add: task_le_def priority_keys_def input_task_def)
  have l1: "calculate_priority (\<lambda>s. None) ?t = LOW"
    by (simp add: priority_eval input_task_def)
  have l2: "calculate_priority (\<lambda>s. None) ?t' = HIGH"
    by (simp add: priority_eval input_task_def)
  show ?thesis
    using h1 h2 h3 l1 l2 calculate_monotone[OF h1 h2 h3, of "\<lambda>s. None"] by blast
qed

text \<open>
  C7, as the specification states it, fails: the off-hours branch returns at once, so
  the two downgrades never compose. For a MEDIUM task at hour 23 with availability 0.1
  the specification's two steps give NONE; the code gives LOW.
\<close>

theorem adjust_compose_counterexample:
  "calculate_priority (\<lambda>s. None) [''effort'' \<mapsto> PyInt 1, ''user_preference'' \<mapsto> PyInt 1] = MEDIUM
   \<and> adjust_priority_based_on_context (\<lambda>s. None)
        [''effort'' \<mapsto> PyInt 1, ''user_preference'' \<mapsto> PyInt 1]
        \<lparr>ctx_current_time = Some 23, ctx_resource_availability = Some (round_double (1 / 10)),
         ctx_user_availability = None\<rparr>
       = Inr LOW
   \<and> spec_adjustForContext MEDIUM 23 (1 / 10) = Inr NONE"
  by (simp add: priority_eval
      adjust_priority_based_on_context_def night_condition_def level_of_value_def
      spec_adjustForContext_def)

lemma level_of_value_down:
  "level_of_value (max (level_value l - 1) 0) = Inr r \<Longrightarrow>
     level_value r = max (level_value l - 1) 0"
  by (cases l) (auto simp: level_of_value_def)

lemma level_of_value_down_ex:
  "\<exists>r. level_of_value (max (level_value l - 1) 0) = Inr r"
  by (cases l) (auto simp: level_of_value_def)

text \<open>
  C7, amended. With a \<open>current_time\<close> in the context,
  \<open>adjust_priority_based_on_context\<close> returns a level that is the base level or one
  ordinal step below it, never above it and never below NONE: one step down (not below
  NONE) in the off-hours window (hour at least 22 or at most 6) when the base level is
  below CRITICAL, whatever the availability; otherwise one step down when
  \<open>resource_availability\<close> is under 0.3 (which covers CRITICAL in the off-hours window);
  otherwise the base level. The two downgrades never add up to two steps.
\<close>

theorem adjust_single_step:
  assumes "ctx_current_time ctx = Some hour"
  shows "\<exists>r. adjust_priority_based_on_context days_until t ctx = Inr r
      \<and> level_value r \<le> level_value (calculate_priority days_until t)
      \<and> level_value (calculate_priority days_until t) - 1 \<le> level_value r
      \<and> level_value NONE \<le> level_value r
      \<and> ((hour \<ge> 22 \<or> hour \<le> 6)
            \<and> level_value (calculate_priority days_until t) < level_value CRITICAL
          \<longrightarrow> level_value r = max (level_value (calculate_priority days_until t) - 1) 0)
      \<and> (\<not> ((hour \<ge> 22 \<or> hour \<le> 6)
               \<and> level_value (calculate_priority days_until t) < level_value CRITICAL)
            \<and> dlt (case ctx_resource_availability ctx of None \<Rightarrow> Fin 1 | Some a \<Rightarrow> a)
                  (round_double (3 / 10))
          \<longrightarrow> level_value r = max (level_value (calculate_priority days_until t) - 1) 0)
      \<and> (\<not> ((hour \<ge> 22 \<or> hour \<le> 6)
               \<and> level_value (calculate_priority days_until t) < level_value CRITICAL)
            \<and> \<not> dlt (case ctx_resource_availability ctx of None \<Rightarrow> Fin 1 | Some a \<Rightarrow> a)
                    (round_double (3 / 10))
          \<longrightarrow> r = calculate_priority days_until t)"
proof -
  obtain b where b: "calculate_priority days_until t = b" by simp
  obtain r where r: "level_of_value (max (level_value b - 1) 0) = Inr r"
    using level_of_value_down_ex by blast
  have rv: "level_value r = max (level_value b - 1) 0"
    using r by (rule level_of_value_down)
  have nn: "0 \<le> level_value b" by (cases b) simp_all
  show ?thesis
    using assms r rv nn unfolding b
    by (auto simp: adjust_priority_based_on_context_def night_condition_def Let_def b)
qed

theorem adjust_single_step_witness:
  "ctx_current_time \<lparr>ctx_current_time = Some 23,
         ctx_resource_availability = Some (round_double (1 / 10)),
         ctx_user_availability = None\<rparr> = Some 23
   \<and> (\<exists>r. adjust_priority_based_on_context (\<lambda>s. None)
          [''effort'' \<mapsto> PyInt 1, ''user_preference'' \<mapsto> PyInt 1]
          \<lparr>ctx_current_time = Some 23, ctx_resource_availability = Some (round_double (1 / 10)),
           ctx_user_availability = None\<rparr> = Inr r
        \<and> level_value (calculate_priority (\<lambda>s. None)
             [''effort'' \<mapsto> PyInt 1, ''user_preference'' \<mapsto> PyInt 1]) - 1 \<le> level_value r)"
proof -
  let ?ctx = "\<lparr>ctx_current_time = Some 23,
         ctx_resource_availability = Some (round_double (1 / 10)),
         ctx_user_availability = None\<rparr>"
  have h: "ctx_current_time ?ctx = Some 23" by simp
  show ?thesis
    using adjust_single_step[OF h, of "\<lambda>s. None"
        "[''effort'' \<mapsto> PyInt 1, ''user_preference'' \<mapsto> PyInt 1]"]
    by auto
qed

text \<open>
  C8. The claim is that \<open>adjust_priority_based_on_context\<close> returns a level for every
  context, also one with no \<open>current_time\<close>. The code does not: its guard
  \<open>current_time and ...\<close> binds tighter than the \<open>or\<close> after it, so for a context
  without \<open>current_time\<close> the right disjunct reads \<open>None.hour\<close> and the call raises
  AttributeError, for every task.
\<close>

theorem adjust_no_current_time_raises:
  "adjust_priority_based_on_context days_until t
     \<lparr>ctx_current_time = None, ctx_resource_availability = ra, ctx_user_availability = ua\<rparr>
   = Inl AttributeError"
  by (simp add: adjust_priority_based_on_context_def night_condition_def)

section \<open>ResourceAllocator: properties\<close>

lemma allocate_bounded:
  "0 \<le> res_allocated r \<and> res_allocated r \<le> res_total r \<Longrightarrow>
   0 \<le> res_allocated (snd (allocate r a)) \<and> res_allocated (snd (allocate r a)) \<le> res_total (snd (allocate r a))"
  by (auto simp: allocate_def can_allocate_def available_def)

lemma release_bounded:
  "0 \<le> res_allocated r \<and> res_allocated r \<le> res_total r \<Longrightarrow>
   0 \<le> res_allocated (snd (release r a)) \<and> res_allocated (snd (release r a)) \<le> res_total (snd (release r a))"
  by (auto simp: release_def)

lemma registry_bounded_update:
  "registry_bounded res \<Longrightarrow> 0 \<le> res_allocated r \<and> res_allocated r \<le> res_total r \<Longrightarrow>
   registry_bounded (AList.update n r res)"
  by (simp add: registry_bounded_def update_conv')

lemma allocate_loop_bounded:
  "registry_bounded res \<Longrightarrow> registry_bounded (snd (allocate_loop reqs res))"
proof (induction reqs arbitrary: res)
  case Nil
  then show ?case by simp
next
  case (Cons a reqs)
  obtain n x where a: "a = (n, x)" by (cases a)
  show ?case
  proof (cases "map_of res n")
    case None
    then show ?thesis using Cons.prems a by simp
  next
    case (Some r)
    have "registry_bounded (AList.update n (snd (allocate r x)) res)"
      using Cons.prems Some
      by (intro registry_bounded_update allocate_bounded) (auto simp: registry_bounded_def)
    then show ?thesis using Some a Cons.IH by simp
  qed
qed

lemma release_loop_bounded:
  "registry_bounded res \<Longrightarrow> registry_bounded (release_loop reqs res)"
proof (induction reqs arbitrary: res)
  case Nil
  then show ?case by simp
next
  case (Cons a reqs)
  obtain n x where a: "a = (n, x)" by (cases a)
  show ?case
  proof (cases "map_of res n")
    case None
    then show ?thesis using Cons a by simp
  next
    case (Some r)
    have "registry_bounded (AList.update n (snd (release r x)) res)"
      using Cons.prems Some
      by (intro registry_bounded_update release_bounded) (auto simp: registry_bounded_def)
    then show ?thesis using Some a Cons.IH by simp
  qed
qed

lemma allocate_resources_eq:
  "allocate_resources rid reqs s =
     (fst (allocate_loop reqs (resources s)),
      s\<lparr>allocated_resources := AList.update rid reqs (allocated_resources s),
        resources := snd (allocate_loop reqs (resources s))\<rparr>)"
  by (simp add: allocate_resources_def Let_def split: prod.splits)

lemma allocate_resources_bounded:
  "registry_bounded (resources s) \<Longrightarrow>
   registry_bounded (resources (snd (allocate_resources rid reqs s)))"
  using allocate_loop_bounded[of "resources s" reqs]
  by (simp add: allocate_resources_eq)

lemma process_loop_bounded:
  "registry_bounded (resources s) \<Longrightarrow>
   registry_bounded (resources (snd (snd (process_loop qs s))))"
proof (induction qs arbitrary: s)
  case Nil
  then show ?case by simp
next
  case (Cons q qs)
  have a: "registry_bounded (resources (snd (allocate_resources (req_id q) (req_requirements q) s)))"
    using Cons.prems by (rule allocate_resources_bounded)
  show ?case
    using Cons.prems a Cons.IH[of s]
      Cons.IH[of "snd (allocate_resources (req_id q) (req_requirements q) s)"]
    by (auto split: sum.splits prod.splits option.splits)
qed

lemma process_pending_bounded:
  "registry_bounded (resources s) \<Longrightarrow>
   registry_bounded (resources (snd (process_pending_requests now s)))"
  using process_loop_bounded[of s "sort_key pending_key (filter (not_expired now) (pending_requests s))"]
  by (auto simp: process_pending_requests_def Let_def split: prod.splits option.splits)

lemma register_resource_bounded:
  "registry_bounded (resources s) \<Longrightarrow>
   registry_bounded (resources (snd (register_resource s name tot unit)))"
  by (auto simp: register_resource_def intro!: registry_bounded_update)

lemma request_resources_bounded:
  "registry_bounded (resources s) \<Longrightarrow>
   registry_bounded (resources (snd (request_resources s rid reqs p t now)))"
  using allocate_resources_bounded[of s rid reqs]
  by (auto simp: request_resources_def split: sum.splits prod.splits option.splits)

lemma release_resources_bounded:
  assumes "registry_bounded (resources s)"
  shows "registry_bounded (resources (snd (release_resources s rid now)))"
proof (cases "map_of (allocated_resources s) rid")
  case None
  then show ?thesis using assms by (simp add: release_resources_def)
next
  case (Some recorded)
  let ?s2 = "s\<lparr>resources := release_loop recorded (resources s),
      allocated_resources := AList.delete rid (allocated_resources s)\<rparr>"
  have "registry_bounded (resources ?s2)"
    using assms by (simp add: release_loop_bounded)
  from process_pending_bounded[OF this, of now] show ?thesis
    using Some by (auto simp: release_resources_def Let_def split: prod.splits option.splits)
qed

lemma exec_call_bounded:
  "registry_bounded (resources s) \<Longrightarrow> registry_bounded (resources (exec_call s c))"
proof (cases c)
  case (Pair call now)
  then show "registry_bounded (resources s) \<Longrightarrow> registry_bounded (resources (exec_call s c))"
    by (cases call)
      (simp_all add: register_resource_bounded request_resources_bounded release_resources_bounded)
qed

lemma run_calls_bounded:
  "registry_bounded (resources s) \<Longrightarrow> registry_bounded (resources (run_calls s calls))"
  unfolding run_calls_def
  by (induction calls arbitrary: s) (simp_all add: exec_call_bounded)

lemma update_eq_map:
  "distinct (map fst res) \<Longrightarrow> map_of res n = Some r \<Longrightarrow>
   AList.update n r' res = map (\<lambda>(m, x). (m, if m = n then r' else x)) res"
proof (induction res)
  case Nil
  then show ?case by simp
next
  case (Cons a res)
  obtain m x where a: "a = (m, x)" by (cases a)
  show ?case
  proof (cases "m = n")
    case True
    then have "n \<notin> fst ` set res" using Cons.prems(1) a by auto
    then have "map (\<lambda>(m, x). (m, if m = n then r' else x)) res = res"
      by (induction res) auto
    then show ?thesis using True a by simp
  next
    case False
    then show ?thesis using Cons a by simp
  qed
qed

lemma check_availability_cong:
  "(\<And>m. m \<in> fst ` set reqs \<Longrightarrow> map_of res m = map_of res' m) \<Longrightarrow>
   check_availability res reqs = check_availability res' reqs"
  by (induction reqs) (auto split: option.splits)

lemma required_amount_Cons:
  "required_amount ((n, a) # rest) m = (if m = n then a else required_amount rest m)"
  by (simp add: required_amount_def)

lemma required_amount_notin:
  "m \<notin> fst ` set reqs \<Longrightarrow> required_amount reqs m = 0"
  using map_of_eq_None_iff[of reqs m] by (simp add: required_amount_def)

lemma grant_Nil: "grant [] res = res"
  by (simp add: grant_def required_amount_def case_prod_unfold)

lemma map_fst_grant: "map fst (grant reqs res) = map fst res"
  by (simp add: grant_def case_prod_unfold comp_def)

lemma map_of_grant:
  "map_of (grant reqs res) m =
     map_option (\<lambda>r. r\<lparr>res_allocated := res_allocated r + required_amount reqs m\<rparr>) (map_of res m)"
  unfolding grant_def by (induction res) auto

lemma allocate_loop_grant:
  assumes "distinct (map fst res)" "distinct (map fst reqs)"
    and "check_availability res reqs = Inr True"
  shows "allocate_loop reqs res = (None, grant reqs res)"
  using assms
proof (induction reqs arbitrary: res)
  case Nil
  then show ?case by (simp add: grant_Nil)
next
  case (Cons a rest)
  obtain n x where a: "a = (n, x)" by (cases a)
  from Cons.prems(3) a obtain r where r: "map_of res n = Some r" and ca: "can_allocate r x"
    and rest: "check_availability res rest = Inr True"
    by (auto split: option.splits if_splits)
  let ?r' = "r\<lparr>res_allocated := res_allocated r + x\<rparr>"
  let ?res1 = "AList.update n ?r' res"
  have al: "snd (allocate r x) = ?r'" using ca by (simp add: allocate_def)
  have nrest: "n \<notin> fst ` set rest" using Cons.prems(2) a by auto
  have d1: "distinct (map fst ?res1)" using Cons.prems(1) by (simp add: distinct_update)
  have "check_availability ?res1 rest = check_availability res rest"
    using nrest by (intro check_availability_cong) (auto simp: update_conv')
  then have c1: "check_availability ?res1 rest = Inr True" using rest by simp
  have drest: "distinct (map fst rest)" using Cons.prems(2) by simp
  have ih: "allocate_loop rest ?res1 = (None, grant rest ?res1)"
    using Cons.IH[OF d1 drest c1] .
  have "grant rest ?res1 = grant ((n, x) # rest) res"
    unfolding update_eq_map[OF Cons.prems(1) r] grant_def
    using r Cons.prems(1) nrest
    by (auto simp: required_amount_Cons required_amount_notin dest: eq_key_imp_eq_value)
  then show ?case using ih r al a by simp
qed

lemma give_back_Nil: "give_back [] res = res"
  by (simp add: give_back_def required_amount_def case_prod_unfold)

lemma map_fst_give_back: "map fst (give_back reqs res) = map fst res"
  by (simp add: give_back_def case_prod_unfold comp_def)

lemma map_of_give_back:
  "map_of (give_back reqs res) m =
     map_option (\<lambda>r. r\<lparr>res_allocated := res_allocated r - required_amount reqs m\<rparr>) (map_of res m)"
  unfolding give_back_def by (induction res) auto

lemma give_back_unknown:
  "map_of res n = None \<Longrightarrow> give_back ((n, a) # rest) res = give_back rest res"
proof -
  assume "map_of res n = None"
  then have "n \<notin> fst ` set res" by (simp add: map_of_eq_None_iff)
  then have "\<forall>(m, x) \<in> set res. m \<noteq> n" by force
  then show ?thesis
    unfolding give_back_def by (auto simp: required_amount_Cons)
qed

lemma release_loop_give_back:
  assumes "distinct (map fst res)" "distinct (map fst reqs)"
    and "\<And>n a r. (n, a) \<in> set reqs \<Longrightarrow> map_of res n = Some r \<Longrightarrow> 0 \<le> a \<and> a \<le> res_allocated r"
  shows "release_loop reqs res = give_back reqs res"
  using assms
proof (induction reqs arbitrary: res)
  case Nil
  then show ?case by (simp add: give_back_Nil)
next
  case (Cons p rest)
  obtain n x where p: "p = (n, x)" by (cases p)
  have drest: "distinct (map fst rest)" and nrest: "n \<notin> fst ` set rest"
    using Cons.prems(2) p by auto
  show ?case
  proof (cases "map_of res n")
    case None
    have "release_loop rest res = give_back rest res"
      using Cons.prems(1) drest Cons.prems(3) by (intro Cons.IH) auto
    then show ?thesis using None p by (simp add: give_back_unknown)
  next
    case (Some r)
    let ?r' = "r\<lparr>res_allocated := res_allocated r - x\<rparr>"
    let ?res1 = "AList.update n ?r' res"
    have ok: "0 \<le> x \<and> x \<le> res_allocated r" using Cons.prems(3)[of n x r] p Some by simp
    then have rl: "snd (release r x) = ?r'" by (auto simp: release_def)
    have d1: "distinct (map fst ?res1)" using Cons.prems(1) by (simp add: distinct_update)
    have ih: "release_loop rest ?res1 = give_back rest ?res1"
    proof (rule Cons.IH[OF d1 drest])
      fix m a r0
      assume m: "(m, a) \<in> set rest" and r0: "map_of ?res1 m = Some r0"
      have "m \<noteq> n" using m nrest by force
      then have "map_of res m = Some r0" using r0 by (simp add: update_conv')
      then show "0 \<le> a \<and> a \<le> res_allocated r0" using Cons.prems(3)[of m a r0] m by simp
    qed
    have "give_back rest ?res1 = give_back ((n, x) # rest) res"
      unfolding update_eq_map[OF Cons.prems(1) Some] give_back_def
      using Some Cons.prems(1) nrest
      by (auto simp: required_amount_Cons required_amount_notin dest: eq_key_imp_eq_value)
    then show ?thesis using ih Some rl p by simp
  qed
qed

lemma check_availability_satisfiable:
  "known_names res reqs \<Longrightarrow> check_availability res reqs = Inr (satisfiable res reqs)"
  by (induction reqs)
     (auto simp: known_names_def satisfiable_def can_allocate_def split: option.splits)

lemma known_names_grant [simp]: "known_names (grant r res) reqs = known_names res reqs"
  by (simp add: known_names_def map_of_grant)

lemma wf_request_grant [simp]: "wf_request (grant r res) = wf_request res"
  by (rule ext) (simp add: wf_request_def)

lemma process_loop_spec:
  assumes "distinct (map fst (resources s))" "list_all (wf_request (resources s)) qs"
    and "spec_walk qs (resources s) (allocated_resources s) = (granted, kept, res', recs')"
  shows "\<exists>marked. process_loop qs s
            = (None, marked, s\<lparr>resources := res', allocated_resources := recs'\<rparr>)
          \<and> filter (\<lambda>q. \<not> req_allocated q) marked = kept"
  using assms
proof (induction qs arbitrary: s granted kept res' recs')
  case Nil
  then show ?case by simp
next
  case (Cons q qs)
  have wq: "wf_request (resources s) q" and wqs: "list_all (wf_request (resources s)) qs"
    using Cons.prems(2) by simp_all
  have ca: "check_availability (resources s) (req_requirements q)
      = Inr (satisfiable (resources s) (req_requirements q))"
    using wq by (simp add: wf_request_def check_availability_satisfiable)
  show ?case
  proof (cases "satisfiable (resources s) (req_requirements q)")
    case True
    let ?s1 = "s\<lparr>allocated_resources := AList.update (req_id q) (req_requirements q) (allocated_resources s),
                 resources := grant (req_requirements q) (resources s)\<rparr>"
    have al: "allocate_resources (req_id q) (req_requirements q) s = (None, ?s1)"
      using allocate_loop_grant[OF Cons.prems(1), of "req_requirements q"] wq ca True
      by (simp add: allocate_resources_eq wf_request_def)
    obtain g' where g: "granted = q # g'"
      and sw: "spec_walk qs (resources ?s1) (allocated_resources ?s1) = (g', kept, res', recs')"
      using Cons.prems(3) True by (auto split: prod.splits)
    have d1: "distinct (map fst (resources ?s1))"
      using Cons.prems(1) by (simp add: map_fst_grant)
    have w1: "list_all (wf_request (resources ?s1)) qs" using wqs by simp
    from Cons.IH[OF d1 w1 sw] obtain marked where
      m: "process_loop qs ?s1 = (None, marked, ?s1\<lparr>resources := res', allocated_resources := recs'\<rparr>)"
      and f: "filter (\<lambda>q. \<not> req_allocated q) marked = kept" by blast
    show ?thesis
      using ca True al m f by simp
  next
    case False
    obtain k' where k: "kept = q # k'"
      and sw: "spec_walk qs (resources s) (allocated_resources s) = (granted, k', res', recs')"
      using Cons.prems(3) False by (auto split: prod.splits)
    from Cons.IH[OF Cons.prems(1) wqs sw] obtain marked where
      m: "process_loop qs s = (None, marked, s\<lparr>resources := res', allocated_resources := recs'\<rparr>)"
      and f: "filter (\<lambda>q. \<not> req_allocated q) marked = k'" by blast
    have "\<not> req_allocated q" using wq by (simp add: wf_request_def)
    then show ?thesis
      using ca False m f k by simp
  qed
qed

lemma pending_key_eq: "pending_key = (\<lambda>q. (- req_priority q, req_timestamp q))"
  by (rule ext) (simp add: pending_key_def)

lemma process_pending_spec:
  assumes "distinct (map fst (resources s))"
    and "list_all (wf_request (resources s)) (pending_requests s)"
  shows "process_pending_requests now s = (None, spec_reprocess now s)"
proof -
  let ?qs = "spec_order now (pending_requests s)"
  obtain granted kept res' recs' where
    sw: "spec_walk ?qs (resources s) (allocated_resources s) = (granted, kept, res', recs')"
    by (cases "spec_walk ?qs (resources s) (allocated_resources s)") auto
  have "set ?qs \<subseteq> set (pending_requests s)" by (auto simp: spec_order_def)
  then have w: "list_all (wf_request (resources s)) ?qs"
    using assms(2) by (auto simp: list_all_iff)
  from process_loop_spec[OF assms(1) w sw] obtain marked where
    m: "process_loop ?qs s = (None, marked, s\<lparr>resources := res', allocated_resources := recs'\<rparr>)"
    and f: "filter (\<lambda>q. \<not> req_allocated q) marked = kept" by blast
  have q: "sort_key pending_key (filter (not_expired now) (pending_requests s)) = ?qs"
    by (simp add: spec_order_def pending_key_eq)
  show ?thesis
    unfolding process_pending_requests_def Let_def q m spec_reprocess_def sw
    using f by (cases s) simp
qed

lemma validate_request_iff:
  "validate_request res reqs = (known_names res reqs \<and> list_all (\<lambda>(n, a). 0 < a) reqs)"
  by (induction reqs) (auto simp: known_names_def split: if_splits)

lemma request_resources_eq:
  assumes "distinct (map fst (resources s))" "distinct (map fst reqs)"
  shows "request_resources s rid reqs p t now =
     (if \<not> validate_request (resources s) reqs then (Inr False, s)
      else if satisfiable (resources s) reqs then
        (Inr True, s\<lparr>resources := grant reqs (resources s),
                      allocated_resources := AList.update rid reqs (allocated_resources s)\<rparr>)
      else
        (Inr False,
         s\<lparr>pending_requests := pending_requests s @
             [\<lparr>req_id = rid, req_requirements = reqs, req_priority = p,
               req_timeout = t, req_timestamp = now, req_allocated = False\<rparr>]\<rparr>))"
proof (cases "validate_request (resources s) reqs")
  case False
  then show ?thesis by (simp add: request_resources_def)
next
  case True
  then have kn: "known_names (resources s) reqs" by (simp add: validate_request_iff)
  note ca = check_availability_satisfiable[OF kn]
  show ?thesis
  proof (cases "satisfiable (resources s) reqs")
    case sat: True
    have "allocate_loop reqs (resources s) = (None, grant reqs (resources s))"
      using allocate_loop_grant[OF assms] ca sat by simp
    then show ?thesis
      using True ca sat by (simp add: request_resources_def allocate_resources_eq)
  next
    case False
    then show ?thesis using True ca by (simp add: request_resources_def)
  qed
qed

lemma required_amount_nonneg:
  "list_all (\<lambda>(n, a). 0 < a) reqs \<Longrightarrow> 0 \<le> required_amount reqs n"
  by (induction reqs) (auto simp: required_amount_def)

lemma required_amount_member:
  "distinct (map fst reqs) \<Longrightarrow> (n, a) \<in> set reqs \<Longrightarrow> required_amount reqs n = a"
  by (simp add: required_amount_def)

lemma required_amount_unknown:
  "known_names res reqs \<Longrightarrow> map_of res n = None \<Longrightarrow> required_amount reqs n = 0"
  by (induction reqs) (auto simp: known_names_def required_amount_def)

lemma recorded_total_Cons:
  "recorded_total ((rid, reqs) # recs) n = required_amount reqs n + recorded_total recs n"
  by (simp add: recorded_total_def)

lemma recorded_total_Nil: "recorded_total [] n = 0"
  by (simp add: recorded_total_def)

lemma recorded_total_nonneg:
  "list_all (\<lambda>(rid, reqs). wf_record res reqs) recs \<Longrightarrow> 0 \<le> recorded_total recs n"
proof (induction recs)
  case Nil
  then show ?case by (simp add: recorded_total_Nil)
next
  case (Cons a recs)
  obtain i r where a: "a = (i, r)" by (cases a)
  have "0 \<le> required_amount r n"
    using Cons.prems a by (auto simp: wf_record_def intro: required_amount_nonneg)
  moreover have "0 \<le> recorded_total recs n" using Cons by simp
  ultimately show ?case using a by (simp add: recorded_total_Cons)
qed

lemma recorded_total_ge:
  "list_all (\<lambda>(rid, reqs). wf_record res reqs) recs \<Longrightarrow> map_of recs rid = Some reqs \<Longrightarrow>
     required_amount reqs n \<le> recorded_total recs n"
proof (induction recs)
  case Nil
  then show ?case by simp
next
  case (Cons a recs)
  obtain i r where a: "a = (i, r)" by (cases a)
  have nn: "0 \<le> recorded_total recs n"
    using Cons.prems(1) by (auto intro: recorded_total_nonneg)
  have rn: "0 \<le> required_amount r n"
    using Cons.prems(1) a by (auto simp: wf_record_def intro: required_amount_nonneg)
  show ?case
  proof (cases "i = rid")
    case True
    then show ?thesis using Cons.prems a nn by (simp add: recorded_total_Cons)
  next
    case False
    then have "required_amount reqs n \<le> recorded_total recs n"
      using Cons a by simp
    then show ?thesis using rn a by (simp add: recorded_total_Cons)
  qed
qed

lemma recorded_total_update:
  "recorded_total (AList.update rid reqs recs) n
     = recorded_total recs n
       - (case map_of recs rid of None \<Rightarrow> 0 | Some old \<Rightarrow> required_amount old n)
       + required_amount reqs n"
  by (induction recs) (auto simp: recorded_total_Cons recorded_total_Nil)

lemma recorded_total_delete:
  "distinct (map fst recs) \<Longrightarrow>
   recorded_total (AList.delete rid recs) n
     = recorded_total recs n
       - (case map_of recs rid of None \<Rightarrow> 0 | Some old \<Rightarrow> required_amount old n)"
proof (induction recs)
  case Nil
  then show ?case by (simp add: recorded_total_Nil)
next
  case (Cons a recs)
  obtain i r where a: "a = (i, r)" by (cases a)
  show ?case
  proof (cases "i = rid")
    case True
    then have "rid \<notin> fst ` set recs" using Cons.prems a by auto
    then show ?thesis using True a by (simp add: recorded_total_Cons)
  next
    case False
    then show ?thesis using Cons a by (simp add: recorded_total_Cons)
  qed
qed

lemma recorded_total_unknown:
  "list_all (\<lambda>(rid, reqs). wf_record res reqs) recs \<Longrightarrow> map_of res n = None \<Longrightarrow>
     recorded_total recs n = 0"
  by (induction recs)
     (auto simp: recorded_total_Cons recorded_total_Nil wf_record_def required_amount_unknown)

lemma list_all_update:
  "list_all P al \<Longrightarrow> P (k, v) \<Longrightarrow> list_all P (AList.update k v al)"
  by (induction al) auto

lemma list_all_delete:
  "list_all P al \<Longrightarrow> list_all P (AList.delete k al)"
  by (induction al) auto

lemma update_fresh: "map_of al k = None \<Longrightarrow> AList.update k v al = al @ [(k, v)]"
  by (induction al) (auto split: if_splits)

lemma inv_entry:
  assumes "allocator_inv s" "map_of (resources s) n = Some r"
  shows "0 \<le> res_allocated r" "res_allocated r \<le> res_total r"
    "recorded_total (allocated_resources s) n \<le> res_allocated r"
proof -
  have "(n, r) \<in> set (resources s)" using assms(2) by (rule map_of_SomeD)
  then show "0 \<le> res_allocated r" "res_allocated r \<le> res_total r"
    "recorded_total (allocated_resources s) n \<le> res_allocated r"
    using assms(1) by (auto simp: allocator_inv_def list_all_iff)
qed

lemma inv_record:
  assumes "allocator_inv s" "map_of (allocated_resources s) rid = Some reqs"
  shows "wf_record (resources s) reqs"
proof -
  have "(rid, reqs) \<in> set (allocated_resources s)" using assms(2) by (rule map_of_SomeD)
  then show ?thesis using assms(1) by (auto simp: allocator_inv_def list_all_iff)
qed

lemma satisfiable_required:
  assumes "satisfiable res reqs" "map_of res n = Some r"
  shows "required_amount reqs n \<le> available r"
proof (cases "map_of reqs n")
  case None
  then show ?thesis by (simp add: required_amount_def available_def)
next
  case (Some a)
  then have "(n, a) \<in> set reqs" by (rule map_of_SomeD)
  then show ?thesis
    using assms Some by (auto simp: satisfiable_def list_all_iff required_amount_def)
qed

lemma known_names_give_back [simp]: "known_names (give_back r res) reqs = known_names res reqs"
  by (simp add: known_names_def map_of_give_back)

lemma wf_request_give_back [simp]: "wf_request (give_back r res) = wf_request res"
  by (rule ext) (simp add: wf_request_def)

lemma wf_record_grant [simp]: "wf_record (grant r res) = wf_record res"
  by (rule ext) (simp add: wf_record_def)

lemma wf_record_give_back [simp]: "wf_record (give_back r res) = wf_record res"
  by (rule ext) (simp add: wf_record_def)

lemma grant_inv:
  assumes inv: "allocator_inv s" and wf: "wf_record (resources s) reqs"
    and sat: "satisfiable (resources s) reqs"
  shows "allocator_inv (s\<lparr>resources := grant reqs (resources s),
           allocated_resources := AList.update rid reqs (allocated_resources s)\<rparr>)"
proof -
  let ?res = "resources s" and ?recs = "allocated_resources s"
  have d: "distinct (map fst ?res)" using inv by (simp add: allocator_inv_def)
  have rn: "\<And>n. 0 \<le> required_amount reqs n"
    using wf by (auto simp: wf_record_def intro: required_amount_nonneg)
  have old: "\<And>n. 0 \<le> (case map_of ?recs rid of None \<Rightarrow> 0 | Some old \<Rightarrow> required_amount old n)"
    using inv_record[OF inv]
    by (auto simp: wf_record_def split: option.splits intro: required_amount_nonneg)
  have entry: "0 \<le> res_allocated r + required_amount reqs n
      \<and> res_allocated r + required_amount reqs n \<le> res_total r
      \<and> recorded_total (AList.update rid reqs ?recs) n \<le> res_allocated r + required_amount reqs n"
    if "(n, r) \<in> set ?res" for n r
  proof -
    have m: "map_of ?res n = Some r" using that d by simp
    note e = inv_entry[OF inv m]
    have "required_amount reqs n \<le> available r" using sat m by (rule satisfiable_required)
    then have "res_allocated r + required_amount reqs n \<le> res_total r"
      using e(2) by (simp add: available_def)
    moreover have "0 \<le> res_allocated r + required_amount reqs n"
      using e(1) rn[of n] by simp
    moreover have "recorded_total (AList.update rid reqs ?recs) n \<le> res_allocated r + required_amount reqs n"
      using e(3) old[of n] by (simp add: recorded_total_update)
    ultimately show ?thesis by simp
  qed
  have c2: "list_all (\<lambda>(n, r). 0 \<le> res_allocated r \<and> res_allocated r \<le> res_total r)
      (grant reqs ?res)"
    using entry by (auto simp: grant_def list_all_iff)
  have c6: "list_all (\<lambda>(n, r). recorded_total (AList.update rid reqs ?recs) n \<le> res_allocated r)
      (grant reqs ?res)"
    using entry by (auto simp: grant_def list_all_iff)
  have c5: "list_all (\<lambda>(rid, reqs). wf_record ?res reqs) (AList.update rid reqs ?recs)"
    using inv wf by (intro list_all_update) (simp_all add: allocator_inv_def)
  show ?thesis
    using inv c2 c5 c6
    by (simp add: allocator_inv_def map_fst_grant distinct_update)
qed

lemma give_back_inv:
  assumes inv: "allocator_inv s" and rec: "map_of (allocated_resources s) rid = Some reqs"
  shows "allocator_inv (s\<lparr>resources := give_back reqs (resources s),
           allocated_resources := AList.delete rid (allocated_resources s)\<rparr>)"
proof -
  let ?res = "resources s" and ?recs = "allocated_resources s"
  have d: "distinct (map fst ?res)" and dr: "distinct (map fst ?recs)"
    and wfs: "list_all (\<lambda>(rid, reqs). wf_record ?res reqs) ?recs"
    using inv by (simp_all add: allocator_inv_def)
  have wf: "wf_record ?res reqs" using inv rec by (rule inv_record)
  have rn: "\<And>n. 0 \<le> required_amount reqs n"
    using wf by (auto simp: wf_record_def intro: required_amount_nonneg)
  have entry: "0 \<le> res_allocated r - required_amount reqs n
      \<and> res_allocated r - required_amount reqs n \<le> res_total r
      \<and> recorded_total (AList.delete rid ?recs) n \<le> res_allocated r - required_amount reqs n"
    if "(n, r) \<in> set ?res" for n r
  proof -
    have m: "map_of ?res n = Some r" using that d by simp
    note e = inv_entry[OF inv m]
    have "required_amount reqs n \<le> recorded_total ?recs n"
      using wfs rec by (rule recorded_total_ge)
    then show ?thesis
      using e rn[of n] rec by (simp add: recorded_total_delete[OF dr])
  qed
  have c2: "list_all (\<lambda>(n, r). 0 \<le> res_allocated r \<and> res_allocated r \<le> res_total r)
      (give_back reqs ?res)"
    using entry by (auto simp: give_back_def list_all_iff)
  have c6: "list_all (\<lambda>(n, r). recorded_total (AList.delete rid ?recs) n \<le> res_allocated r)
      (give_back reqs ?res)"
    using entry by (auto simp: give_back_def list_all_iff)
  have c5: "list_all (\<lambda>(rid, reqs). wf_record ?res reqs) (AList.delete rid ?recs)"
    using wfs by (rule list_all_delete)
  show ?thesis
    using inv c2 c5 c6
    by (simp add: allocator_inv_def map_fst_give_back distinct_delete)
qed

lemma spec_walk_inv:
  assumes "allocator_inv s" "list_all (wf_request (resources s)) qs"
    and "spec_walk qs (resources s) (allocated_resources s) = (granted, kept, res', recs')"
  shows "allocator_inv (s\<lparr>resources := res', allocated_resources := recs'\<rparr>)
         \<and> mset granted + mset kept = mset qs"
  using assms
proof (induction qs arbitrary: s granted kept res' recs')
  case Nil
  then show ?case by auto
next
  case (Cons q qs)
  have wq: "wf_request (resources s) q" and wqs: "list_all (wf_request (resources s)) qs"
    using Cons.prems(2) by simp_all
  show ?case
  proof (cases "satisfiable (resources s) (req_requirements q)")
    case True
    let ?s1 = "s\<lparr>resources := grant (req_requirements q) (resources s),
         allocated_resources := AList.update (req_id q) (req_requirements q) (allocated_resources s)\<rparr>"
    obtain g' where g: "granted = q # g'"
      and sw: "spec_walk qs (resources ?s1) (allocated_resources ?s1) = (g', kept, res', recs')"
      using Cons.prems(3) True by (auto split: prod.splits)
    have i1: "allocator_inv ?s1"
      using Cons.prems(1) wq True by (intro grant_inv) (simp_all add: wf_request_def wf_record_def)
    have w1: "list_all (wf_request (resources ?s1)) qs" using wqs by simp
    from Cons.IH[OF i1 w1 sw] show ?thesis using g by simp
  next
    case False
    obtain k' where k: "kept = q # k'"
      and sw: "spec_walk qs (resources s) (allocated_resources s) = (granted, k', res', recs')"
      using Cons.prems(3) False by (auto split: prod.splits)
    from Cons.IH[OF Cons.prems(1) wqs sw] show ?thesis using k by simp
  qed
qed

lemma spec_reprocess_inv:
  assumes "allocator_inv s"
  shows "allocator_inv (spec_reprocess now s)"
proof -
  let ?qs = "spec_order now (pending_requests s)"
  obtain granted kept res' recs' where
    sw: "spec_walk ?qs (resources s) (allocated_resources s) = (granted, kept, res', recs')"
    by (cases "spec_walk ?qs (resources s) (allocated_resources s)") auto
  have sub: "set ?qs \<subseteq> set (pending_requests s)" by (auto simp: spec_order_def)
  then have w: "list_all (wf_request (resources s)) ?qs"
    using assms by (auto simp: allocator_inv_def list_all_iff)
  from spec_walk_inv[OF assms w sw]
  have i: "allocator_inv (s\<lparr>resources := res', allocated_resources := recs'\<rparr>)"
    and m: "mset granted + mset kept = mset ?qs" by simp_all
  have "set kept \<subseteq> set ?qs" using m by (metis mset_subset_eqD mset_subset_eq_add_right set_mset_mset subsetI)
  then have "set kept \<subseteq> set (pending_requests s)" using sub by blast
  then show ?thesis
    using i unfolding spec_reprocess_def sw
    by (auto simp: allocator_inv_def list_all_iff)
qed




lemma release_resources_eq:
  assumes inv: "allocator_inv s" and rec: "map_of (allocated_resources s) rid = Some reqs"
  shows "release_resources s rid now =
     (True, spec_reprocess now
        (s\<lparr>resources := give_back reqs (resources s),
           allocated_resources := AList.delete rid (allocated_resources s)\<rparr>))"
proof -
  let ?s2 = "s\<lparr>resources := give_back reqs (resources s),
           allocated_resources := AList.delete rid (allocated_resources s)\<rparr>"
  have d: "distinct (map fst (resources s))"
    and wfs: "list_all (\<lambda>(rid, reqs). wf_record (resources s) reqs) (allocated_resources s)"
    using inv by (simp_all add: allocator_inv_def)
  have wf: "wf_record (resources s) reqs" using inv rec by (rule inv_record)
  have rl: "release_loop reqs (resources s) = give_back reqs (resources s)"
  proof (rule release_loop_give_back[OF d])
    show "distinct (map fst reqs)" using wf by (simp add: wf_record_def)
  next
    fix n a r
    assume m: "(n, a) \<in> set reqs" and r: "map_of (resources s) n = Some r"
    have a: "required_amount reqs n = a"
      using wf m by (simp add: wf_record_def required_amount_member)
    have "0 < a" using wf m by (auto simp: wf_record_def list_all_iff)
    moreover have "required_amount reqs n \<le> recorded_total (allocated_resources s) n"
      using wfs rec by (rule recorded_total_ge)
    ultimately show "0 \<le> a \<and> a \<le> res_allocated r"
      using inv_entry(3)[OF inv r] a by simp
  qed
  have i2: "allocator_inv ?s2" using inv rec by (rule give_back_inv)
  have pp: "process_pending_requests now ?s2 = (None, spec_reprocess now ?s2)"
    using i2 by (intro process_pending_spec) (simp_all add: allocator_inv_def)
  show ?thesis
    using rec rl pp by (simp add: release_resources_def Let_def)
qed

lemma release_resources_unknown:
  "map_of (allocated_resources s) rid = None \<Longrightarrow> release_resources s rid now = (False, s)"
  by (simp add: release_resources_def)

lemma register_resource_inv:
  assumes inv: "allocator_inv s"
  shows "allocator_inv (snd (register_resource s name tot unit))"
proof (cases "map_of (resources s) name = None \<and> 0 < tot")
  case False
  then show ?thesis using inv by (auto simp: register_resource_def)
next
  case True
  let ?r = "\<lparr>res_name = name, res_total = tot, res_allocated = 0, res_unit = unit\<rparr>"
  let ?res' = "resources s @ [(name, ?r)]"
  have eq: "snd (register_resource s name tot unit) = s\<lparr>resources := ?res'\<rparr>"
    using True by (simp add: register_resource_def update_fresh)
  have fresh: "name \<notin> fst ` set (resources s)"
    using True by (simp add: map_of_eq_None_iff)
  have kn: "known_names ?res' reqs" if "known_names (resources s) reqs" for reqs
    using that by (auto simp: known_names_def list_all_iff)
  have z: "recorded_total (allocated_resources s) name = 0"
    using inv True by (intro recorded_total_unknown[of "resources s"]) (simp_all add: allocator_inv_def)
  show ?thesis
    unfolding eq using inv True fresh z kn
    by (auto simp: allocator_inv_def list_all_iff wf_request_def wf_record_def)
qed

lemma request_resources_inv:
  assumes inv: "allocator_inv s" and dr: "distinct (map fst reqs)"
  shows "allocator_inv (snd (request_resources s rid reqs p t now))"
proof -
  have d: "distinct (map fst (resources s))" using inv by (simp add: allocator_inv_def)
  note eq = request_resources_eq[OF d dr, of rid p t now]
  show ?thesis
  proof (cases "validate_request (resources s) reqs")
    case False
    then show ?thesis using inv eq by simp
  next
    case True
    then have wf: "wf_record (resources s) reqs"
      using dr by (simp add: validate_request_iff wf_record_def)
    show ?thesis
    proof (cases "satisfiable (resources s) reqs")
      case sat: True
      then show ?thesis using eq True grant_inv[OF inv wf sat, of rid] by simp
    next
      case False
      then show ?thesis
        using eq True inv wf
        by (simp add: allocator_inv_def wf_request_def wf_record_def)
    qed
  qed
qed

lemma release_resources_inv:
  assumes inv: "allocator_inv s"
  shows "allocator_inv (snd (release_resources s rid now))"
proof (cases "map_of (allocated_resources s) rid")
  case None
  then show ?thesis using inv by (simp add: release_resources_unknown)
next
  case (Some reqs)
  show ?thesis
    unfolding release_resources_eq[OF inv Some]
    using give_back_inv[OF inv Some] by (simp add: spec_reprocess_inv)
qed

lemma exec_call_inv:
  "allocator_inv s \<Longrightarrow> wf_call c \<Longrightarrow> allocator_inv (exec_call s c)"
proof (cases c)
  case (Pair call now)
  then show "allocator_inv s \<Longrightarrow> wf_call c \<Longrightarrow> allocator_inv (exec_call s c)"
    by (cases call)
       (simp_all add: register_resource_inv request_resources_inv release_resources_inv)
qed

lemma run_calls_inv:
  "allocator_inv s \<Longrightarrow> list_all wf_call calls \<Longrightarrow> allocator_inv (run_calls s calls)"
  unfolding run_calls_def
  by (induction calls arbitrary: s) (simp_all add: exec_call_inv)

lemma init_allocator_inv: "allocator_inv init_allocator"
  by (simp add: allocator_inv_def init_allocator_def)




text \<open>
  With exact amounts the guards of \<open>Resource.allocate\<close> and \<open>Resource.release\<close> keep
  \<open>0 \<le> allocated \<le> total\<close> after every sequence of calls on a fresh allocator.
\<close>

lemma exact_allocated_within_total:
  "map_of (resources (run_calls init_allocator calls)) n = Some r \<Longrightarrow>
     0 \<le> res_allocated r \<and> res_allocated r \<le> res_total r"
proof -
  have "registry_bounded (resources init_allocator)"
    by (simp add: registry_bounded_def init_allocator_def)
  then have "registry_bounded (resources (run_calls init_allocator calls))"
    by (rule run_calls_bounded)
  then show "map_of (resources (run_calls init_allocator calls)) n = Some r \<Longrightarrow>
     0 \<le> res_allocated r \<and> res_allocated r \<le> res_total r"
    by (simp add: registry_bounded_def)
qed

















section \<open>ResourceAllocator on floats: properties\<close>

lemma check_availability_f_cong:
  "(\<And>m. m \<in> fst ` set reqs \<Longrightarrow> map_of res m = map_of res' m) \<Longrightarrow>
   check_availability_f res reqs = check_availability_f res' reqs"
  by (induction reqs) (auto split: option.splits)

lemma grant_f_Nil: "grant_f [] res = res"
  by (simp add: grant_f_def case_prod_unfold)

lemma map_fst_grant_f: "map fst (grant_f reqs res) = map fst res"
  by (simp add: grant_f_def case_prod_unfold comp_def)

lemma map_of_grant_f_None: "map_of (grant_f reqs res) m = None \<longleftrightarrow> map_of res m = None"
  by (simp add: map_of_eq_None_iff map_fst_grant_f flip: set_map)

lemma allocate_resources_f_eq:
  "allocate_resources_f rid reqs s =
     (fst (allocate_loop_f reqs (resources_f s)),
      s\<lparr>allocated_resources_f := AList.update rid reqs (allocated_resources_f s),
        resources_f := snd (allocate_loop_f reqs (resources_f s))\<rparr>)"
  by (simp add: allocate_resources_f_def Let_def case_prod_unfold)

lemma allocate_loop_f_grant:
  assumes "distinct (map fst res)" "distinct (map fst reqs)"
    and "check_availability_f res reqs = Inr True"
  shows "allocate_loop_f reqs res = (None, grant_f reqs res)"
  using assms
proof (induction reqs arbitrary: res)
  case Nil
  then show ?case by (simp add: grant_f_Nil)
next
  case (Cons a rest)
  obtain n x where a: "a = (n, x)" by (cases a)
  from Cons.prems(3) a obtain r where r: "map_of res n = Some r" and ca: "can_allocate_f r x"
    and rest: "check_availability_f res rest = Inr True"
    by (auto split: option.splits if_splits)
  let ?r' = "r\<lparr>allocated_f := dadd (allocated_f r) x\<rparr>"
  let ?res1 = "AList.update n ?r' res"
  have al: "snd (allocate_f r x) = ?r'" using ca by (simp add: allocate_f_def)
  have nrest: "n \<notin> fst ` set rest" using Cons.prems(2) a by auto
  then have nn: "map_of rest n = None" by (simp add: map_of_eq_None_iff)
  have d1: "distinct (map fst ?res1)" using Cons.prems(1) by (simp add: distinct_update)
  have "check_availability_f ?res1 rest = check_availability_f res rest"
    using nrest by (intro check_availability_f_cong) (auto simp: update_conv')
  then have c1: "check_availability_f ?res1 rest = Inr True" using rest by simp
  have drest: "distinct (map fst rest)" using Cons.prems(2) by simp
  have ih: "allocate_loop_f rest ?res1 = (None, grant_f rest ?res1)"
    using Cons.IH[OF d1 drest c1] .
  have "grant_f rest ?res1 = grant_f ((n, x) # rest) res"
    unfolding update_eq_map[OF Cons.prems(1) r] grant_f_def
    using r Cons.prems(1) nn
    by (auto dest: eq_key_imp_eq_value)
  then show ?case using ih r al a by simp
qed

lemma give_back_f_Nil: "give_back_f [] res = res"
  by (simp add: give_back_f_def case_prod_unfold)

lemma map_fst_give_back_f: "map fst (give_back_f reqs res) = map fst res"
  by (simp add: give_back_f_def case_prod_unfold comp_def)

lemma give_back_f_unknown:
  "map_of res n = None \<Longrightarrow> give_back_f ((n, a) # rest) res = give_back_f rest res"
proof -
  assume "map_of res n = None"
  then have "n \<notin> fst ` set res" by (simp add: map_of_eq_None_iff)
  then have "\<forall>(m, x) \<in> set res. m \<noteq> n" by force
  then show ?thesis
    unfolding give_back_f_def by auto
qed

lemma release_loop_f_give_back:
  assumes "distinct (map fst res)" "distinct (map fst reqs)"
  shows "release_loop_f reqs res = give_back_f reqs res"
  using assms
proof (induction reqs arbitrary: res)
  case Nil
  then show ?case by (simp add: give_back_f_Nil)
next
  case (Cons p rest)
  obtain n x where p: "p = (n, x)" by (cases p)
  have drest: "distinct (map fst rest)" and nrest: "n \<notin> fst ` set rest"
    using Cons.prems(2) p by auto
  then have nn: "map_of rest n = None" by (simp add: map_of_eq_None_iff)
  show ?case
  proof (cases "map_of res n")
    case None
    have "release_loop_f rest res = give_back_f rest res"
      using Cons.prems(1) drest by (rule Cons.IH)
    then show ?thesis using None p by (simp add: give_back_f_unknown)
  next
    case (Some r)
    let ?r' = "snd (release_f r x)"
    let ?res1 = "AList.update n ?r' res"
    have d1: "distinct (map fst ?res1)" using Cons.prems(1) by (simp add: distinct_update)
    have ih: "release_loop_f rest ?res1 = give_back_f rest ?res1"
      using d1 drest by (rule Cons.IH)
    have "give_back_f rest ?res1 = give_back_f ((n, x) # rest) res"
      unfolding update_eq_map[OF Cons.prems(1) Some] give_back_f_def
      using Some Cons.prems(1) nn
      by (auto simp: release_f_def dest: eq_key_imp_eq_value)
    then show ?thesis using ih Some p by simp
  qed
qed

lemma check_availability_f_satisfiable:
  "known_names_f res reqs \<Longrightarrow> check_availability_f res reqs = Inr (satisfiable_f res reqs)"
  by (induction reqs)
     (auto simp: known_names_f_def satisfiable_f_def can_allocate_f_def split: option.splits)

lemma known_names_f_grant [simp]: "known_names_f (grant_f r res) reqs = known_names_f res reqs"
  by (simp add: known_names_f_def map_of_grant_f_None)

lemma wf_request_f_grant [simp]: "wf_request_f (grant_f r res) = wf_request_f res"
  by (rule ext) (simp add: wf_request_f_def)

lemma map_of_give_back_f_None:
  "map_of (give_back_f reqs res) m = None \<longleftrightarrow> map_of res m = None"
  by (simp add: map_of_eq_None_iff map_fst_give_back_f flip: set_map)

lemma known_names_f_give_back [simp]:
  "known_names_f (give_back_f r res) reqs = known_names_f res reqs"
  by (simp add: known_names_f_def map_of_give_back_f_None)

lemma wf_request_f_give_back [simp]: "wf_request_f (give_back_f r res) = wf_request_f res"
  by (rule ext) (simp add: wf_request_f_def)

lemma process_loop_f_spec:
  assumes "distinct (map fst (resources_f s))" "list_all (wf_request_f (resources_f s)) qs"
    and "spec_walk_f qs (resources_f s) (allocated_resources_f s) = (granted, kept, res', recs')"
  shows "\<exists>marked. process_loop_f qs s
            = (None, marked, s\<lparr>resources_f := res', allocated_resources_f := recs'\<rparr>)
          \<and> filter (\<lambda>q. \<not> granted_f q) marked = kept"
  using assms
proof (induction qs arbitrary: s granted kept res' recs')
  case Nil
  then show ?case by simp
next
  case (Cons q qs)
  have wq: "wf_request_f (resources_f s) q"
    and wqs: "list_all (wf_request_f (resources_f s)) qs"
    using Cons.prems(2) by simp_all
  have ca: "check_availability_f (resources_f s) (requirements_of q)
      = Inr (satisfiable_f (resources_f s) (requirements_of q))"
    using wq by (simp add: wf_request_f_def check_availability_f_satisfiable)
  show ?case
  proof (cases "satisfiable_f (resources_f s) (requirements_of q)")
    case True
    let ?s1 = "s\<lparr>allocated_resources_f :=
                    AList.update (id_f q) (requirements_of q) (allocated_resources_f s),
                 resources_f := grant_f (requirements_of q) (resources_f s)\<rparr>"
    have al: "allocate_resources_f (id_f q) (requirements_of q) s = (None, ?s1)"
      using allocate_loop_f_grant[OF Cons.prems(1), of "requirements_of q"] wq ca True
      by (simp add: allocate_resources_f_eq wf_request_f_def)
    obtain g' where g: "granted = q # g'"
      and sw: "spec_walk_f qs (resources_f ?s1) (allocated_resources_f ?s1)
                 = (g', kept, res', recs')"
      using Cons.prems(3) True by (auto split: prod.splits)
    have d1: "distinct (map fst (resources_f ?s1))"
      using Cons.prems(1) by (simp add: map_fst_grant_f)
    have w1: "list_all (wf_request_f (resources_f ?s1)) qs" using wqs by simp
    from Cons.IH[OF d1 w1 sw] obtain marked where
      m: "process_loop_f qs ?s1
            = (None, marked, ?s1\<lparr>resources_f := res', allocated_resources_f := recs'\<rparr>)"
      and f: "filter (\<lambda>q. \<not> granted_f q) marked = kept" by blast
    show ?thesis
      using ca True al m f by simp
  next
    case False
    obtain k' where k: "kept = q # k'"
      and sw: "spec_walk_f qs (resources_f s) (allocated_resources_f s)
                 = (granted, k', res', recs')"
      using Cons.prems(3) False by (auto split: prod.splits)
    from Cons.IH[OF Cons.prems(1) wqs sw] obtain marked where
      m: "process_loop_f qs s
            = (None, marked, s\<lparr>resources_f := res', allocated_resources_f := recs'\<rparr>)"
      and f: "filter (\<lambda>q. \<not> granted_f q) marked = k'" by blast
    have "\<not> granted_f q" using wq by (simp add: wf_request_f_def)
    then show ?thesis
      using ca False m f k by simp
  qed
qed

lemma pending_key_f_eq: "pending_key_f = (\<lambda>q. (- priority_f q, timestamp_f q))"
  by (rule ext) (simp add: pending_key_f_def)

lemma process_pending_f_spec:
  assumes "distinct (map fst (resources_f s))"
    and "list_all (wf_request_f (resources_f s)) (pending_requests_f s)"
  shows "process_pending_requests_f now s = (None, spec_reprocess_f now s)"
proof -
  let ?qs = "spec_order_f now (pending_requests_f s)"
  obtain granted kept res' recs' where
    sw: "spec_walk_f ?qs (resources_f s) (allocated_resources_f s) = (granted, kept, res', recs')"
    by (cases "spec_walk_f ?qs (resources_f s) (allocated_resources_f s)") auto
  have "set ?qs \<subseteq> set (pending_requests_f s)" by (auto simp: spec_order_f_def)
  then have w: "list_all (wf_request_f (resources_f s)) ?qs"
    using assms(2) by (auto simp: list_all_iff)
  from process_loop_f_spec[OF assms(1) w sw] obtain marked where
    m: "process_loop_f ?qs s
          = (None, marked, s\<lparr>resources_f := res', allocated_resources_f := recs'\<rparr>)"
    and f: "filter (\<lambda>q. \<not> granted_f q) marked = kept" by blast
  have q: "sort_key pending_key_f (filter (not_expired_f now) (pending_requests_f s)) = ?qs"
    by (simp add: spec_order_f_def pending_key_f_eq)
  show ?thesis
    unfolding process_pending_requests_f_def Let_def q m spec_reprocess_f_def sw
    using f by (cases s) simp
qed

lemma validate_request_f_known:
  "validate_request_f res reqs \<Longrightarrow> known_names_f res reqs"
  by (induction reqs) (auto simp: known_names_f_def split: if_splits)

lemma request_resources_f_eq:
  assumes "distinct (map fst (resources_f s))" "distinct (map fst reqs)"
  shows "request_resources_f s rid reqs p t now =
     (if \<not> validate_request_f (resources_f s) reqs then (Inr False, s)
      else if satisfiable_f (resources_f s) reqs then
        (Inr True, s\<lparr>resources_f := grant_f reqs (resources_f s),
                      allocated_resources_f := AList.update rid reqs (allocated_resources_f s)\<rparr>)
      else
        (Inr False,
         s\<lparr>pending_requests_f := pending_requests_f s @
             [\<lparr>id_f = rid, requirements_of = reqs, priority_f = p,
               timeout_f = t, timestamp_f = now, granted_f = False\<rparr>]\<rparr>))"
proof (cases "validate_request_f (resources_f s) reqs")
  case False
  then show ?thesis by (simp add: request_resources_f_def)
next
  case True
  then have kn: "known_names_f (resources_f s) reqs" by (rule validate_request_f_known)
  note ca = check_availability_f_satisfiable[OF kn]
  show ?thesis
  proof (cases "satisfiable_f (resources_f s) reqs")
    case sat: True
    have "allocate_loop_f reqs (resources_f s) = (None, grant_f reqs (resources_f s))"
      using allocate_loop_f_grant[OF assms] ca sat by simp
    then show ?thesis
      using True ca sat by (simp add: request_resources_f_def allocate_resources_f_eq)
  next
    case False
    then show ?thesis using True ca by (simp add: request_resources_f_def)
  qed
qed

text \<open>The well-formedness is kept by every step.\<close>

lemma wf_record_f:
  assumes "allocator_wf s" "map_of (allocated_resources_f s) rid = Some reqs"
  shows "distinct (map fst reqs)"
proof -
  have "(rid, reqs) \<in> set (allocated_resources_f s)" using assms(2) by (rule map_of_SomeD)
  then show ?thesis using assms(1) by (auto simp: allocator_wf_def list_all_iff)
qed

lemma grant_f_wf:
  assumes "allocator_wf s" "distinct (map fst reqs)"
  shows "allocator_wf (s\<lparr>resources_f := grant_f reqs (resources_f s),
           allocated_resources_f := AList.update rid reqs (allocated_resources_f s)\<rparr>)"
  using assms
  by (auto simp: allocator_wf_def map_fst_grant_f intro: list_all_update)

lemma give_back_f_wf:
  assumes "allocator_wf s"
  shows "allocator_wf (s\<lparr>resources_f := give_back_f reqs (resources_f s),
           allocated_resources_f := AList.delete rid (allocated_resources_f s)\<rparr>)"
  using assms
  by (auto simp: allocator_wf_def map_fst_give_back_f intro: list_all_delete)

lemma wf_request_f_names:
  "map fst res' = map fst res \<Longrightarrow> wf_request_f res' q = wf_request_f res q"
proof -
  assume "map fst res' = map fst res"
  then have "fst ` set res' = fst ` set res" by (metis set_map)
  then have "map_of res' n = None \<longleftrightarrow> map_of res n = None" for n
    by (simp add: map_of_eq_None_iff)
  then show ?thesis by (simp add: wf_request_f_def known_names_f_def)
qed

lemma spec_walk_f_shape:
  assumes "spec_walk_f qs res recs = (granted, kept, res', recs')"
  shows "map fst res' = map fst res" "mset granted + mset kept = mset qs"
  using assms
proof (induction qs arbitrary: res recs granted kept)
  case Nil
  {
    case 1
    then show ?case by simp
  next
    case 2
    then show ?case by simp
  }
next
  case (Cons q qs)
  {
    case 1
    show ?case
    proof (cases "satisfiable_f res (requirements_of q)")
      case True
      obtain g' where
        sw: "spec_walk_f qs (grant_f (requirements_of q) res)
               (AList.update (id_f q) (requirements_of q) recs) = (g', kept, res', recs')"
        using 1 True by (auto split: prod.splits)
      from Cons.IH(1)[OF sw] show ?thesis by (simp add: map_fst_grant_f)
    next
      case False
      obtain k' where sw: "spec_walk_f qs res recs = (granted, k', res', recs')"
        using 1 False by (auto split: prod.splits)
      from Cons.IH(1)[OF sw] show ?thesis .
    qed
  next
    case 2
    show ?case
    proof (cases "satisfiable_f res (requirements_of q)")
      case True
      obtain g' where g: "granted = q # g'" and
        sw: "spec_walk_f qs (grant_f (requirements_of q) res)
               (AList.update (id_f q) (requirements_of q) recs) = (g', kept, res', recs')"
        using 2 True by (auto split: prod.splits)
      from Cons.IH(2)[OF sw] show ?thesis using g by simp
    next
      case False
      obtain k' where k: "kept = q # k'"
        and sw: "spec_walk_f qs res recs = (granted, k', res', recs')"
        using 2 False by (auto split: prod.splits)
      from Cons.IH(2)[OF sw] show ?thesis using k by simp
    qed
  }
qed

lemma spec_walk_f_records_wf:
  assumes "spec_walk_f qs res recs = (granted, kept, res', recs')"
    and "list_all (\<lambda>(rid, reqs). distinct (map fst reqs)) recs"
    and "list_all (\<lambda>q. distinct (map fst (requirements_of q))) qs"
  shows "list_all (\<lambda>(rid, reqs). distinct (map fst reqs)) recs'"
  using assms
proof (induction qs arbitrary: res recs granted kept)
  case Nil
  then show ?case by simp
next
  case (Cons q qs)
  show ?case
  proof (cases "satisfiable_f res (requirements_of q)")
    case True
    obtain g' where
      sw: "spec_walk_f qs (grant_f (requirements_of q) res)
             (AList.update (id_f q) (requirements_of q) recs) = (g', kept, res', recs')"
      using Cons.prems(1) True by (auto split: prod.splits)
    have "list_all (\<lambda>(rid, reqs). distinct (map fst reqs))
        (AList.update (id_f q) (requirements_of q) recs)"
      using Cons.prems(2,3) by (intro list_all_update) simp_all
    then show ?thesis using Cons.IH[OF sw] Cons.prems(3) by simp
  next
    case False
    obtain k' where sw: "spec_walk_f qs res recs = (granted, k', res', recs')"
      using Cons.prems(1) False by (auto split: prod.splits)
    show ?thesis using Cons.IH[OF sw] Cons.prems(2,3) by simp
  qed
qed

lemma spec_reprocess_f_wf:
  assumes "allocator_wf s"
  shows "allocator_wf (spec_reprocess_f now s)"
proof -
  let ?qs = "spec_order_f now (pending_requests_f s)"
  obtain granted kept res' recs' where
    sw: "spec_walk_f ?qs (resources_f s) (allocated_resources_f s) = (granted, kept, res', recs')"
    by (cases "spec_walk_f ?qs (resources_f s) (allocated_resources_f s)") auto
  have sub: "set ?qs \<subseteq> set (pending_requests_f s)" by (auto simp: spec_order_f_def)
  then have w: "list_all (wf_request_f (resources_f s)) ?qs"
    using assms by (auto simp: allocator_wf_def list_all_iff)
  note sh = spec_walk_f_shape[OF sw]
  have "set_mset (mset kept) \<subseteq> set_mset (mset ?qs)"
    unfolding sh(2)[symmetric] by simp
  then have "set kept \<subseteq> set ?qs" by simp
  then have "list_all (wf_request_f (resources_f s)) kept"
    using w by (auto simp: list_all_iff)
  then have k: "list_all (wf_request_f res') kept"
    using wf_request_f_names[OF sh(1)] by (simp add: list_all_iff)
  have d: "distinct (map fst res')" using assms sh(1) by (simp add: allocator_wf_def)
  have r: "list_all (\<lambda>(rid, reqs). distinct (map fst reqs)) recs'"
    using sw assms w
    by (intro spec_walk_f_records_wf[OF sw]) (auto simp: allocator_wf_def wf_request_f_def list_all_iff)
  show ?thesis
    unfolding spec_reprocess_f_def sw using d k r by (simp add: allocator_wf_def)
qed

lemma release_resources_f_eq:
  assumes wf: "allocator_wf s" and rec: "map_of (allocated_resources_f s) rid = Some reqs"
  shows "release_resources_f s rid now =
     (True, spec_reprocess_f now
        (s\<lparr>resources_f := give_back_f reqs (resources_f s),
           allocated_resources_f := AList.delete rid (allocated_resources_f s)\<rparr>))"
proof -
  let ?s2 = "s\<lparr>resources_f := give_back_f reqs (resources_f s),
           allocated_resources_f := AList.delete rid (allocated_resources_f s)\<rparr>"
  have d: "distinct (map fst (resources_f s))" using wf by (simp add: allocator_wf_def)
  have rl: "release_loop_f reqs (resources_f s) = give_back_f reqs (resources_f s)"
    using d wf_record_f[OF wf rec] by (rule release_loop_f_give_back)
  have i2: "allocator_wf ?s2" using wf by (rule give_back_f_wf)
  have pp: "process_pending_requests_f now ?s2 = (None, spec_reprocess_f now ?s2)"
    using i2 by (intro process_pending_f_spec) (simp_all add: allocator_wf_def)
  show ?thesis
    using rec rl pp by (simp add: release_resources_f_def Let_def)
qed

lemma release_resources_f_unknown:
  "map_of (allocated_resources_f s) rid = None \<Longrightarrow> release_resources_f s rid now = (False, s)"
  by (simp add: release_resources_f_def)

lemma register_resource_f_wf:
  assumes wf: "allocator_wf s"
  shows "allocator_wf (snd (register_resource_f s name tot unit))"
proof (cases "map_of (resources_f s) name = None \<and> \<not> dle tot (Fin 0)")
  case False
  then show ?thesis using wf by (auto simp: register_resource_f_def)
next
  case True
  let ?r = "\<lparr>name_f = name, total_f = tot, allocated_f = Fin 0, unit_f = unit\<rparr>"
  let ?res' = "resources_f s @ [(name, ?r)]"
  have eq: "snd (register_resource_f s name tot unit) = s\<lparr>resources_f := ?res'\<rparr>"
    using True by (simp add: register_resource_f_def update_fresh)
  have fresh: "name \<notin> fst ` set (resources_f s)"
    using True by (simp add: map_of_eq_None_iff)
  have kn: "known_names_f ?res' reqs" if "known_names_f (resources_f s) reqs" for reqs
    using that by (auto simp: known_names_f_def list_all_iff)
  show ?thesis
    unfolding eq using wf fresh kn
    by (auto simp: allocator_wf_def list_all_iff wf_request_f_def)
qed

lemma request_resources_f_wf:
  assumes wf: "allocator_wf s" and dr: "distinct (map fst reqs)"
  shows "allocator_wf (snd (request_resources_f s rid reqs p t now))"
proof -
  have d: "distinct (map fst (resources_f s))" using wf by (simp add: allocator_wf_def)
  note eq = request_resources_f_eq[OF d dr, of rid p t now]
  show ?thesis
  proof (cases "validate_request_f (resources_f s) reqs")
    case False
    then show ?thesis using wf eq by simp
  next
    case True
    then have kn: "known_names_f (resources_f s) reqs" by (rule validate_request_f_known)
    show ?thesis
    proof (cases "satisfiable_f (resources_f s) reqs")
      case sat: True
      then show ?thesis using eq True grant_f_wf[OF wf dr, of rid] by simp
    next
      case False
      then show ?thesis
        using eq True wf kn dr
        by (simp add: allocator_wf_def wf_request_f_def)
    qed
  qed
qed

lemma release_resources_f_wf:
  assumes wf: "allocator_wf s"
  shows "allocator_wf (snd (release_resources_f s rid now))"
proof (cases "map_of (allocated_resources_f s) rid")
  case None
  then show ?thesis using wf by (simp add: release_resources_f_unknown)
next
  case (Some reqs)
  show ?thesis
    unfolding release_resources_f_eq[OF wf Some]
    using give_back_f_wf[OF wf, where reqs = reqs and rid = rid]
    by (simp add: spec_reprocess_f_wf)
qed

lemma exec_call_f_wf:
  "allocator_wf s \<Longrightarrow> wf_call_f c \<Longrightarrow> allocator_wf (exec_call_f s c)"
proof (cases c)
  case (Pair call now)
  then show "allocator_wf s \<Longrightarrow> wf_call_f c \<Longrightarrow> allocator_wf (exec_call_f s c)"
    by (cases call)
       (simp_all add: register_resource_f_wf request_resources_f_wf release_resources_f_wf)
qed

text \<open>Every state that well-formed calls reach from a fresh allocator is well formed.\<close>

lemma run_calls_f_wf:
  "allocator_wf s \<Longrightarrow> list_all wf_call_f calls \<Longrightarrow> allocator_wf (run_calls_f s calls)"
  unfolding run_calls_f_def
  by (induction calls arbitrary: s) (simp_all add: exec_call_f_wf)

lemma init_allocator_f_wf: "allocator_wf init_allocator_f"
  by (simp add: allocator_wf_def init_allocator_f_def)




lemmas allocator_f_eval =
  run_calls_f_def init_allocator_f_def register_resource_f_def request_resources_f_def
  release_resources_f_def allocate_resources_f_def process_pending_requests_f_def
  allocate_f_def release_f_def can_allocate_f_def available_f_def not_expired_f_def
  pending_key_f_def dadd_def dsub_def dneg_def dle_def dlt_def dmax0_def Let_def

text \<open>
  C2. The claim is that \<open>allocated\<close> never exceeds \<open>total\<close>. In the code it does:
  \<open>can_allocate\<close> admits an amount when \<open>amount <= total - allocated\<close> holds for the
  rounded difference, and \<open>allocate\<close> then stores the rounded sum
  \<open>allocated + amount\<close>, which can lie above \<open>total\<close>. After
  \<open>register_resource('r', 1.7)\<close>, \<open>request_resources('a', {'r': 0.6})\<close> and
  \<open>request_resources('b', {'r': 1.1})\<close> both requests are granted (1.7 - 0.6 rounds to
  1.1) and \<open>allocated\<close> is 1.7000000000000002, above the total 1.7.
\<close>

theorem allocated_exceeds_total:
  "run_calls_f init_allocator_f
       [(Register_f ''r'' (round_double (17 / 10)) ''units'', 0),
        (Request_f ''a'' [(''r'', round_double (6 / 10))] 0 None, 1),
        (Request_f ''b'' [(''r'', round_double (11 / 10))] 0 None, 2)]
     = \<lparr>resources_f =
          [(''r'', \<lparr>name_f = ''r'', total_f = Fin (7656119366529843 / 4503599627370496),
                    allocated_f = Fin (1914029841632461 / 1125899906842624),
                    unit_f = ''units''\<rparr>)],
        pending_requests_f = [],
        allocated_resources_f =
          [(''a'', [(''r'', Fin (5404319552844595 / 9007199254740992))]),
           (''b'', [(''r'', Fin (2476979795053773 / 2251799813685248))])]\<rparr>
   \<and> dlt (Fin (7656119366529843 / 4503599627370496))
         (Fin (1914029841632461 / 1125899906842624))"
  by (simp add: allocator_f_eval)




section \<open>TaskScheduler: properties\<close>

lemma get_nowait_None: "get_nowait q = None \<longleftrightarrow> q = []"
  by (simp add: get_nowait_def Let_def)

lemma get_nowait_Some:
  assumes "get_nowait q = Some (m, rest)"
  shows "m \<in> set q" "rest = remove1 m q" "\<And>e. e \<in> set q \<Longrightarrow> entry_key m \<le> entry_key e"
proof -
  have ne: "q \<noteq> []" and m: "m = arg_min_list entry_key q" and r: "rest = remove1 m q"
    using assms by (auto simp: get_nowait_def Let_def split: if_splits)
  show "m \<in> set q" using m ne by (simp add: arg_min_list_in)
  show "rest = remove1 m q" by (rule r)
  fix e assume "e \<in> set q"
  then show "entry_key m \<le> entry_key e"
    using f_arg_min_list_f[OF ne, of entry_key] m by simp
qed

lemma get_nowait_rest_subset:
  "get_nowait q = Some (m, rest) \<Longrightarrow> set rest \<subseteq> set q"
  using get_nowait_Some(2)[of q m rest] set_remove1_subset[of m q] by simp

lemma queue_ok_rest:
  "queue_ok q \<Longrightarrow> get_nowait q = Some (m, rest) \<Longrightarrow> queue_ok rest"
  using get_nowait_rest_subset[of q m rest] by (auto simp: queue_ok_def list_all_iff)

lemma queue_ok_min:
  "queue_ok q \<Longrightarrow> get_nowait q = Some (m, rest) \<Longrightarrow>
     entry_consistent m \<and> forward_interval (entry_task m)"
  using get_nowait_Some(1)[of q m rest] by (auto simp: queue_ok_def list_all_iff)


lemma next_occurrence_entry_ok:
  assumes "entry_consistent (p, ts, tid, t)" "forward_interval t"
  shows "entry_consistent (p, schedule_time (next_occurrence t), tid, next_occurrence t)"
    "forward_interval (next_occurrence t)"
  using assms
  by (auto simp: entry_consistent_def entry_key_def entry_id_def entry_task_def task_key_def
      next_occurrence_def forward_interval_def)



lemma drain_unfold:
  "drain (Suc fuel) now s pend done =
     (if task_queue s = [] then Some (s, pend, done)
      else (case loop_step now (s, pend, done) of
              (s', pend', done') \<Rightarrow> drain fuel now s' pend' done'))"
proof (cases "get_nowait (task_queue s)")
  case None
  then have "task_queue s = []" by (simp add: get_nowait_None)
  then show ?thesis by (simp add: get_nowait_def)
next
  case (Some a)
  then have ne: "task_queue s \<noteq> []" using get_nowait_None[of "task_queue s"] by auto
  obtain p ts tid t rest where a: "a = ((p, ts, tid, t), rest)"
    by (cases a) (metis prod_cases4)
  show ?thesis
    using Some ne unfolding a by (simp add: loop_step_def Let_def)
qed

lemma rounds_pos: "0 < rounds now e"
  by (simp add: rounds_def Let_def)

lemma total_rounds_remove1:
  "m \<in> set q \<Longrightarrow> total_rounds now q = rounds now m + total_rounds now (remove1 m q)"
  unfolding total_rounds_def by (rule sum_list_map_remove1)

lemma rounds_next_occurrence:
  assumes "forward_interval t" "reschedules t" "schedule_time t \<le> now"
  shows "rounds now (p, schedule_time (next_occurrence t), tid, next_occurrence t)
           < rounds now (p', ts, tid', t)"
proof -
  obtain d where d: "interval t = Some d" and dn: "d \<noteq> 0" and rec: "recurring t"
    using assms(2) by (auto simp: reschedules_def split: option.splits)
  have dpos: "0 < d" using assms(1) d dn by (simp add: forward_interval_def)
  have st: "schedule_time (next_occurrence t) = schedule_time t + d"
    and iv: "interval (next_occurrence t) = Some d"
    and rs: "reschedules (next_occurrence t)"
    using d dn rec by (simp_all add: next_occurrence_def reschedules_def)
  have big: "rounds now (p', ts, tid', t) = nat ((now - schedule_time t) div d) + 2"
    using assms(2,3) d by (simp add: rounds_def entry_task_def)
  show ?thesis
  proof (cases "schedule_time t + d \<le> now")
    case True
    have "(now - (schedule_time t + d) + d) div d = (now - (schedule_time t + d)) div d + 1"
      using dpos by (intro div_add_self2) simp
    then have "(now - (schedule_time t + d)) div d = (now - schedule_time t) div d - 1"
      by simp
    moreover have "0 < (now - schedule_time t) div d"
      using True dpos pos_imp_zdiv_pos_iff[of d "now - schedule_time t"] by simp
    ultimately show ?thesis
      using True big st iv rs by (simp add: rounds_def entry_task_def)
  next
    case False
    then show ?thesis using big st by (simp add: rounds_def entry_task_def)
  qed
qed

lemma loop_step_decreases:
  assumes "queue_ok (task_queue s)" "task_queue s \<noteq> []"
    and "loop_step now (s, pend, done) = (s', pend', done')"
  shows "queue_ok (task_queue s') \<and> total_rounds now (task_queue s') < total_rounds now (task_queue s)"
proof -
  obtain a where g0: "get_nowait (task_queue s) = Some a"
    using assms(2) get_nowait_None[of "task_queue s"] by (cases "get_nowait (task_queue s)") auto
  obtain p ts tid t rest where a: "a = ((p, ts, tid, t), rest)"
    by (cases a) (metis prod_cases4)
  let ?m = "(p, ts, tid, t)"
  note g = g0[unfolded a]
  have okr: "queue_ok rest" using assms(1) g by (rule queue_ok_rest)
  have okm: "entry_consistent ?m" "forward_interval t"
    using queue_ok_min[OF assms(1) g] by (simp_all add: entry_task_def)
  have tot: "total_rounds now (task_queue s) = rounds now ?m + total_rounds now rest"
    using total_rounds_remove1[OF get_nowait_Some(1)[OF g], of now] get_nowait_Some(2)[OF g]
    by simp
  have less_rest: "total_rounds now rest < total_rounds now (task_queue s)"
    using tot rounds_pos[of now ?m] by simp
  show ?thesis
  proof (cases "map_of (registered_tasks s) tid \<noteq> None \<and> now \<ge> schedule_time t \<and> reschedules t")
    case True
    let ?n = "next_occurrence t"
    let ?e = "(p, schedule_time ?n, tid, ?n)"
    have q': "task_queue s' = put rest ?e"
      using assms(3) g True by (auto simp: loop_step_def)
    have oke: "entry_consistent ?e" "forward_interval ?n"
      using next_occurrence_entry_ok[OF okm] by simp_all
    have "rounds now ?e < rounds now ?m"
      using okm(2) True by (intro rounds_next_occurrence) simp_all
    then have "total_rounds now (put rest ?e) < total_rounds now (task_queue s)"
      using tot by (simp add: total_rounds_def put_def)
    then show ?thesis
      using q' okr oke by (simp add: queue_ok_def put_def entry_task_def)
  next
    case False
    then have "task_queue s' = rest"
      using assms(3) g by (auto simp: loop_step_def split: if_splits)
    then show ?thesis using okr less_rest by simp
  qed
qed



lemma loop_step_facts:
  assumes "task_queue s \<noteq> []"
    and "loop_step now (s, pend, done) = (s', pend', done')"
  shows "set done \<subseteq> set done'"
    and "\<And>k. map_of (registered_tasks s') k = None \<longleftrightarrow> map_of (registered_tasks s) k = None"
    and "\<And>e. e \<in> set (task_queue s) \<Longrightarrow>
           e \<in> set (task_queue s')
           \<or> (map_of (registered_tasks s) (entry_id e) \<noteq> None
                \<and> schedule_time (entry_task e) \<le> now \<longrightarrow> entry_task e \<in> set done')"
    and "\<And>t. t \<in> set done' \<Longrightarrow> t \<in> set done \<or> schedule_time t \<le> now"
proof -
  obtain a where g0: "get_nowait (task_queue s) = Some a"
    using assms(1) get_nowait_None[of "task_queue s"] by (cases "get_nowait (task_queue s)") auto
  obtain p ts tid t rest where a: "a = ((p, ts, tid, t), rest)"
    by (cases a) (metis prod_cases4)
  let ?m = "(p, ts, tid, t)"
  note g = g0[unfolded a]
  note st = assms(2)[unfolded loop_step_def, simplified, unfolded g, simplified]
  show "set done \<subseteq> set done'"
    using st by (auto split: if_splits)
  show "map_of (registered_tasks s') k = None \<longleftrightarrow> map_of (registered_tasks s) k = None" for k
    using st by (auto simp: update_conv' split: if_splits)
  show "t' \<in> set done \<or> schedule_time t' \<le> now" if "t' \<in> set done'" for t'
    using st that by (auto split: if_splits)
  show "e \<in> set (task_queue s')
           \<or> (map_of (registered_tasks s) (entry_id e) \<noteq> None
                \<and> schedule_time (entry_task e) \<le> now \<longrightarrow> entry_task e \<in> set done')"
    if e: "e \<in> set (task_queue s)" for e
  proof (cases "e = ?m")
    case True
    then show ?thesis
      using st by (auto simp: entry_id_def entry_task_def split: if_splits)
  next
    case False
    then have "e \<in> set rest" using e get_nowait_Some(2)[OF g] by simp
    then have "e \<in> set (task_queue s')" using st by (auto simp: put_def split: if_splits)
    then show ?thesis by simp
  qed
qed






text \<open>
  The queue invariants hold initially and are kept by \<open>add_task\<close> and by a pass of the
  scheduler loop.
\<close>

lemma get_nowait_mset:
  "get_nowait q = Some (m, rest) \<Longrightarrow> mset q = add_mset m (mset rest)"
  using get_nowait_Some(1,2)[of q m rest] by simp

lemma loop_step_ids:
  assumes "task_queue s \<noteq> []"
    and "loop_step now (s, pend, done) = (s', pend', done')"
  shows "mset (map entry_id (task_queue s' @ pend')) \<subseteq># mset (map entry_id (task_queue s @ pend))"
proof -
  obtain a where g0: "get_nowait (task_queue s) = Some a"
    using assms(1) get_nowait_None[of "task_queue s"] by (cases "get_nowait (task_queue s)") auto
  obtain p ts tid t rest where a: "a = ((p, ts, tid, t), rest)"
    by (cases a) (metis prod_cases4)
  note g = g0[unfolded a]
  note st = assms(2)[unfolded loop_step_def, simplified, unfolded g, simplified]
  have q: "mset (task_queue s) = add_mset (p, ts, tid, t) (mset rest)"
    using g by (rule get_nowait_mset)
  have "mset (map entry_id (task_queue s)) = add_mset tid (mset (map entry_id rest))"
    using arg_cong[OF q, of "image_mset entry_id"] by (simp add: entry_id_def)
  then show ?thesis
    using st by (auto simp: put_def entry_id_def split: if_splits)
qed

lemma drain_ids:
  assumes "drain fuel now s pend done = Some (s', pend', done')"
  shows "mset (map entry_id (task_queue s' @ pend')) \<subseteq># mset (map entry_id (task_queue s @ pend))
       \<and> (\<forall>k. map_of (registered_tasks s') k = None \<longleftrightarrow> map_of (registered_tasks s) k = None)"
  using assms
proof (induction fuel arbitrary: s pend "done")
  case 0
  then show ?case by simp
next
  case (Suc fuel)
  show ?case
  proof (cases "task_queue s = []")
    case True
    then show ?thesis using Suc.prems by (simp add: drain_unfold del: drain.simps)
  next
    case False
    obtain s1 pend1 done1 where st: "loop_step now (s, pend, done) = (s1, pend1, done1)"
      by (cases "loop_step now (s, pend, done)") auto
    have dr: "drain fuel now s1 pend1 done1 = Some (s', pend', done')"
      using Suc.prems False st by (simp add: drain_unfold del: drain.simps)
    from Suc.IH[OF dr]
    have i1: "mset (map entry_id (task_queue s' @ pend')) \<subseteq># mset (map entry_id (task_queue s1 @ pend1))"
      and i2: "\<forall>k. map_of (registered_tasks s') k = None \<longleftrightarrow> map_of (registered_tasks s1) k = None"
      by simp_all
    have a: "mset (map entry_id (task_queue s' @ pend')) \<subseteq># mset (map entry_id (task_queue s @ pend))"
      using i1 loop_step_ids[OF False st] by (rule subset_mset.order_trans)
    have b: "\<forall>k. map_of (registered_tasks s') k = None \<longleftrightarrow> map_of (registered_tasks s) k = None"
      using i2 loop_step_facts(2)[OF False st] by simp
    show ?thesis using a b by simp
  qed
qed

lemma foldl_put: "foldl put q es = q @ es"
  by (induction es arbitrary: q) (simp_all add: put_def)

lemma distinct_mset_subset:
  "mset xs \<subseteq># mset ys \<Longrightarrow> distinct ys \<Longrightarrow> distinct xs"
proof -
  assume sub: "mset xs \<subseteq># mset ys" and d: "distinct ys"
  obtain Z where Z: "mset ys = mset xs + Z"
    using sub by (auto simp: subset_mset.le_iff_add)
  obtain zs where zs: "Z = mset zs" using ex_mset[of Z] by auto
  have "mset ys = mset (xs @ zs)" using Z zs by simp
  then have "distinct (xs @ zs)" using d mset_eq_imp_distinct_iff by blast
  then show "distinct xs" by simp
qed

lemma scheduler_pass_inv:
  assumes "sched_inv s" "scheduler_pass fuel now s = Some (s', dispatched)"
  shows "sched_inv s'"
proof -
  obtain s0 pend where dr: "drain fuel now s [] [] = Some (s0, pend, dispatched)"
    and s': "s' = s0\<lparr>task_queue := foldl put (task_queue s0) pend\<rparr>"
    using assms(2) by (auto simp: scheduler_pass_def split: option.splits prod.splits)
  from drain_ids[OF dr]
  have sub: "mset (map entry_id (task_queue s0 @ pend)) \<subseteq># mset (map entry_id (task_queue s))"
    and reg: "\<forall>k. map_of (registered_tasks s0) k = None \<longleftrightarrow> map_of (registered_tasks s) k = None"
    by simp_all
  have ds: "distinct (map entry_id (task_queue s))" using assms(1) by (simp add: sched_inv_def)
  have d: "distinct (map entry_id (task_queue s0 @ pend))"
    using sub ds by (rule distinct_mset_subset)
  have "set_mset (mset (map entry_id (task_queue s0 @ pend)))
      \<subseteq> set_mset (mset (map entry_id (task_queue s)))"
    using sub by (rule set_mset_mono)
  then have "set (map entry_id (task_queue s0 @ pend)) \<subseteq> set (map entry_id (task_queue s))"
    by simp
  then have r: "\<forall>e \<in> set (task_queue s0 @ pend). map_of (registered_tasks s0) (entry_id e) \<noteq> None"
    using assms(1) reg by (auto simp: sched_inv_def list_all_iff)
  show ?thesis
    unfolding s' using d r by (simp add: sched_inv_def foldl_put list_all_iff)
qed

lemma add_task_inv:
  assumes "sched_inv s"
  shows "sched_inv (snd (add_task s tid f st p a k r i now))"
proof (cases "map_of (registered_tasks s) tid")
  case (Some x)
  then show ?thesis using assms by (simp add: add_task_def)
next
  case None
  have "tid \<notin> entry_id ` set (task_queue s)"
    using assms None by (auto simp: sched_inv_def list_all_iff)
  then show ?thesis
    using assms None
    by (auto simp: sched_inv_def add_task_def Let_def put_def entry_id_def update_conv'
        list_all_iff)
qed

lemma add_task_queue_ok:
  assumes "queue_ok (task_queue s)" "case i of None \<Rightarrow> True | Some d \<Rightarrow> 0 \<le> d"
  shows "queue_ok (task_queue (snd (add_task s tid f st p a k r i now)))"
  using assms
  by (auto simp: queue_ok_def add_task_def Let_def put_def entry_consistent_def entry_key_def
      entry_id_def entry_task_def task_key_def forward_interval_def)

lemma scheduler_pass_queue_ok:
  assumes "queue_ok (task_queue s)" "scheduler_pass fuel now s = Some (s', dispatched)"
  shows "queue_ok (task_queue s')"
proof -
  obtain s0 pend where dr: "drain fuel now s [] [] = Some (s0, pend, dispatched)"
    and s': "s' = s0\<lparr>task_queue := foldl put (task_queue s0) pend\<rparr>"
    using assms(2) by (auto simp: scheduler_pass_def split: option.splits prod.splits)
  have gen: "drain fuel now s1 pend1 done1 = Some (s2, pend2, done2) \<Longrightarrow>
      queue_ok (task_queue s1) \<Longrightarrow> queue_ok pend1 \<Longrightarrow> queue_ok (task_queue s2) \<and> queue_ok pend2"
    for fuel s1 pend1 done1 s2 pend2 done2
  proof (induction fuel arbitrary: s1 pend1 done1)
    case 0
    then show ?case by simp
  next
    case (Suc fuel)
    show ?case
    proof (cases "task_queue s1 = []")
      case True
      then show ?thesis using Suc.prems by (simp add: drain_unfold del: drain.simps)
    next
      case False
      obtain s3 pend3 done3 where st: "loop_step now (s1, pend1, done1) = (s3, pend3, done3)"
        by (cases "loop_step now (s1, pend1, done1)") auto
      have dr3: "drain fuel now s3 pend3 done3 = Some (s2, pend2, done2)"
        using Suc.prems(1) False st by (simp add: drain_unfold del: drain.simps)
      have ok3: "queue_ok (task_queue s3)"
        using loop_step_decreases[OF Suc.prems(2) False st] by simp
      obtain a where g0: "get_nowait (task_queue s1) = Some a"
        using False get_nowait_None[of "task_queue s1"] by (cases "get_nowait (task_queue s1)") auto
      obtain p ts tid t rest where a: "a = ((p, ts, tid, t), rest)"
        by (cases a) (metis prod_cases4)
      note g = g0[unfolded a]
      have okm: "entry_consistent (p, ts, tid, t) \<and> forward_interval (entry_task (p, ts, tid, t))"
        using Suc.prems(2) g by (rule queue_ok_min)
      have "pend3 = pend1 \<or> pend3 = pend1 @ [(p, ts, tid, t)]"
        using st[unfolded loop_step_def, simplified, unfolded g, simplified]
        by (auto split: if_splits)
      then have okp: "queue_ok pend3"
        using Suc.prems(3) okm by (auto simp: queue_ok_def)
      show ?thesis using Suc.IH[OF dr3 ok3 okp] .
    qed
  qed
  have "queue_ok (task_queue s0) \<and> queue_ok pend"
    using gen[OF dr assms(1)] by (simp add: queue_ok_def)
  then show ?thesis unfolding s' by (simp add: foldl_put queue_ok_def)
qed


lemma init_scheduler_inv: "sched_inv init_scheduler \<and> queue_ok (task_queue init_scheduler)"
  by (simp add: sched_inv_def queue_ok_def init_scheduler_def)

lemmas scheduler_eval =
  two_tasks_def init_scheduler_def add_task_def put_def get_nowait_def scheduler_pass_def
  entry_key_def entry_id_def entry_task_def reschedules_def Let_def

lemma two_tasks_state:
  "two_tasks =
     \<lparr>task_queue =
        [(5, 0, ''B'', \<lparr>task_id = ''B'', task_function = 0, schedule_time = 0, task_priority = 5,
             task_args = [], task_kwargs = [], recurring = False, interval = None, added_at = 0\<rparr>),
         (1, 0, ''A'', \<lparr>task_id = ''A'', task_function = 1, schedule_time = 0, task_priority = 1,
             task_args = [], task_kwargs = [], recurring = False, interval = None, added_at = 0\<rparr>)],
      registered_tasks =
        [(''B'', \<lparr>task_id = ''B'', task_function = 0, schedule_time = 0, task_priority = 5,
             task_args = [], task_kwargs = [], recurring = False, interval = None, added_at = 0\<rparr>),
         (''A'', \<lparr>task_id = ''A'', task_function = 1, schedule_time = 0, task_priority = 1,
             task_args = [], task_kwargs = [], recurring = False, interval = None, added_at = 0\<rparr>)]\<rparr>"
  by (simp add: scheduler_eval)



text \<open>
  C9. When a task with id \<open>tid\<close> is registered, \<open>add_task(tid, ...)\<close> returns False and
  the scheduler is unchanged: the registered task with all its fields and the pending
  queue are what they were.
\<close>

theorem add_task_duplicate:
  "map_of (registered_tasks s) tid = Some existing \<Longrightarrow>
     add_task s tid task_func sched_time priority args kwargs recurring' interval' now = (False, s)"
  by (simp add: add_task_def)

theorem add_task_duplicate_witness:
  "map_of (registered_tasks two_tasks) ''A''
     = Some \<lparr>task_id = ''A'', task_function = 1, schedule_time = 0, task_priority = 1,
             task_args = [], task_kwargs = [], recurring = False, interval = None, added_at = 0\<rparr>
   \<and> add_task two_tasks ''A'' 7 99 9 ''x'' ''y'' True (Some 3) 50 = (False, two_tasks)"
proof -
  have h: "map_of (registered_tasks two_tasks) ''A''
     = Some \<lparr>task_id = ''A'', task_function = 1, schedule_time = 0, task_priority = 1,
             task_args = [], task_kwargs = [], recurring = False, interval = None, added_at = 0\<rparr>"
    by (simp add: two_tasks_state)
  show ?thesis
    using h add_task_duplicate[OF h, of 7 99 9 "''x''" "''y''" True "Some 3" 50] by simp
qed



end
